theory Spec2Isabelle
  imports Main "HOL-Library.Sublist"
begin

section \<open>Python strings and characters\<close>

text \<open>
  The converter works on Python \<open>str\<close> values. They are modelled as \<open>string\<close>, one
  \<open>char\<close> per code point, which covers the code points 0 to 255 (ASCII and Latin-1).
  The character classes below are the ones of Python's \<open>re\<close> module for \<open>str\<close>
  patterns, restricted to that range.
\<close>

definition bslash :: char where
  "bslash = CHR 0x5C"

definition newline :: char where
  "newline = CHR 0x0A"

definition is_digit :: "char \<Rightarrow> bool" where
  "is_digit c = (c \<in> set ''0123456789'')"

definition is_octdigit :: "char \<Rightarrow> bool" where
  "is_octdigit c = (c \<in> set ''01234567'')"

definition is_ascii_letter :: "char \<Rightarrow> bool" where
  "is_ascii_letter c =
     (c \<in> set ''abcdefghijklmnopqrstuvwxyzABCDEFGHIJKLMNOPQRSTUVWXYZ'')"

definition is_latin1_letter :: "char \<Rightarrow> bool" where
  "is_latin1_letter c =
     (let n = (of_char c :: nat) in
        n = 170 \<or> n = 181 \<or> n = 186 \<or> (192 \<le> n \<and> n \<le> 214) \<or>
        (216 \<le> n \<and> n \<le> 246) \<or> 248 \<le> n)"

definition is_word :: "char \<Rightarrow> bool" where
  \<comment> \<open>\<open>\w\<close>: alphanumeric code points and the underscore\<close>
  "is_word c =
     (is_ascii_letter c \<or> is_digit c \<or> c = CHR ''_'' \<or> is_latin1_letter c \<or>
      (of_char c :: nat) \<in> {178, 179, 185, 188, 189, 190})"

definition is_space :: "char \<Rightarrow> bool" where
  \<comment> \<open>\<open>\s\<close>: the code points for which \<open>str.isspace\<close> holds\<close>
  "is_space c = ((of_char c :: nat) \<in> {9, 10, 11, 12, 13, 28, 29, 30, 31, 32, 133, 160})"

definition lower_char :: "char \<Rightarrow> char" where
  "lower_char c =
     (case map_of (zip ''ABCDEFGHIJKLMNOPQRSTUVWXYZ'' ''abcdefghijklmnopqrstuvwxyz'') c of
        Some d \<Rightarrow> d | None \<Rightarrow> c)"

definition upper_char :: "char \<Rightarrow> char" where
  "upper_char c =
     (case map_of (zip ''abcdefghijklmnopqrstuvwxyz'' ''ABCDEFGHIJKLMNOPQRSTUVWXYZ'') c of
        Some d \<Rightarrow> d | None \<Rightarrow> c)"

definition lower :: "string \<Rightarrow> string" where
  \<comment> \<open>\<open>str.lower\<close> on ASCII text (the name table holds ASCII names only)\<close>
  "lower s = map lower_char s"

definition upper :: "string \<Rightarrow> string" where
  \<comment> \<open>\<open>str.upper\<close> on ASCII text\<close>
  "upper s = map upper_char s"

fun str_nat :: "nat \<Rightarrow> string" where
  \<comment> \<open>\<open>str(n)\<close> for a non-negative integer\<close>
  "str_nat n =
     (if n < 10 then [''0123456789'' ! n]
      else str_nat (n div 10) @ [''0123456789'' ! (n mod 10)])"

declare str_nat.simps [simp del]

definition py_slice :: "string \<Rightarrow> int \<Rightarrow> int \<Rightarrow> string" where
  \<comment> \<open>\<open>s[a:b]\<close>: negative indices count from the end, both are clipped to the string\<close>
  "py_slice s a b =
     (let n = int (length s);
          a' = (if a < 0 then max 0 (a + n) else min a n);
          b' = (if b < 0 then max 0 (b + n) else min b n)
      in take (nat (b' - a')) (drop (nat a') s))"

section \<open>Regular expressions\<close>

text \<open>
  The patterns of the program are written with the constructs below. A character class
  matches one character; \<open>Dot\<close> is \<open>.\<close> without the DOTALL flag (anything but a newline),
  \<open>DotAll\<close> is \<open>.\<close> under DOTALL. \<open>Star\<close> is the greedy \<open>*\<close>, \<open>LazyStar\<close> is \<open>*?\<close>,
  \<open>Group n\<close> is the n-th capturing group and \<open>Look\<close> is the lookahead \<open>(?=...)\<close>.
\<close>

datatype cclass = Lit char | Dot | DotAll | Word | Space | Digit

fun cmatch :: "cclass \<Rightarrow> char \<Rightarrow> bool" where
  "cmatch (Lit c) x = (x = c)"
| "cmatch Dot x = (x \<noteq> newline)"
| "cmatch DotAll x = True"
| "cmatch Word x = is_word x"
| "cmatch Space x = is_space x"
| "cmatch Digit x = is_digit x"

datatype regex =
    Atom cclass
  | Eps
  | Seq regex regex
  | Alt regex regex
  | Star regex
  | LazyStar regex
  | Group nat regex
  | Look regex

definition Plus :: "regex \<Rightarrow> regex" where
  \<comment> \<open>\<open>r+\<close>\<close>
  "Plus r = Seq r (Star r)"

definition Opt :: "regex \<Rightarrow> regex" where
  \<comment> \<open>\<open>r{0,1}\<close>, greedy: try \<open>r\<close> first\<close>
  "Opt r = Alt r Eps"

fun lit :: "string \<Rightarrow> regex" where
  \<comment> \<open>a run of literal characters\<close>
  "lit [] = Eps"
| "lit (c # cs) = Seq (Atom (Lit c)) (lit cs)"

fun seqs :: "regex list \<Rightarrow> regex" where
  "seqs [] = Eps"
| "seqs (r # rs) = Seq r (seqs rs)"

text \<open>
  A matcher state is the current position in the searched string, the text from that
  position on, and the spans (start, end) of the groups captured so far. \<open>ms r st\<close> lists
  the states in which a match of \<open>r\<close> started at \<open>st\<close> can end, in the order in which
  a backtracking matcher tries them: the head of the list is the match Python reports.
  A repetition is entered again only after an iteration that consumed text.
\<close>

type_synonym caps = "nat \<rightharpoonup> nat \<times> nat"
type_synonym mstate = "nat \<times> string \<times> caps"

definition shorter :: "mstate \<Rightarrow> mstate \<Rightarrow> bool" where
  "shorter st st' = (length (fst (snd st')) < length (fst (snd st)))"

function ms :: "regex \<Rightarrow> mstate \<Rightarrow> mstate list" where
  "ms (Atom c) (p, s, g) =
     (case s of [] \<Rightarrow> [] | x # xs \<Rightarrow> if cmatch c x then [(Suc p, xs, g)] else [])"
| "ms Eps st = [st]"
| "ms (Seq a b) st = concat (map (ms b) (ms a st))"
| "ms (Alt a b) st = ms a st @ ms b st"
| "ms (Star r) st = concat (map (ms (Star r)) (filter (shorter st) (ms r st))) @ [st]"
| "ms (LazyStar r) st = st # concat (map (ms (LazyStar r)) (filter (shorter st) (ms r st)))"
| "ms (Group n r) (p, s, g) =
     map (\<lambda>(p', s', g'). (p', s', g'(n \<mapsto> (p, p')))) (ms r (p, s, g))"
| "ms (Look r) (p, s, g) =
     (case ms r (p, s, g) of [] \<Rightarrow> [] | (p', s', g') # _ \<Rightarrow> [(p, s, g')])"
  by pat_completeness auto
termination
  by (relation "measures [\<lambda>(r, st). size r, \<lambda>(r, st). length (fst (snd st))]")
     (auto simp: shorter_def)

declare ms.simps(5,6) [simp del]

text \<open>
  \<open>scan r p s\<close> is the search loop of \<open>re.search\<close>: try a match at the current position,
  else move one character on. The end of the string is a position too.
\<close>

fun scan :: "regex \<Rightarrow> nat \<Rightarrow> string \<Rightarrow> (nat \<times> nat \<times> caps) option" where
  "scan r p [] =
     (case ms r (p, [], Map.empty) of [] \<Rightarrow> None | (e, _, g) # _ \<Rightarrow> Some (p, e, g))"
| "scan r p (x # xs) =
     (case ms r (p, x # xs, Map.empty) of
        [] \<Rightarrow> scan r (Suc p) xs
      | (e, _, g) # _ \<Rightarrow> Some (p, e, g))"

lemma ms_consumes:
  "(p', s', g') \<in> set (ms r (p, s, g)) \<Longrightarrow> \<exists>w. s = w @ s' \<and> p' = p + length w"
proof (induction r "(p, s, g)" arbitrary: p s g p' s' g' rule: ms.induct)
  case (1 c p s g)
  then show ?case by (auto split: list.splits if_splits)
next
  case (2 p s g)
  then show ?case by simp
next
  case (3 a b p s g)
  from "3.prems" obtain p1 s1 g1 where st: "(p1, s1, g1) \<in> set (ms a (p, s, g))"
    and in_b: "(p', s', g') \<in> set (ms b (p1, s1, g1))" by auto
  from "3.hyps"(1) [OF st] obtain w1 where w1: "s = w1 @ s1" "p1 = p + length w1" by blast
  from "3.hyps"(2) [OF st in_b] obtain w2 where "s1 = w2 @ s'" "p' = p1 + length w2"
    by blast
  with w1 show ?case by auto
next
  case (4 a b p s g)
  then show ?case by auto
next
  case (5 r p s g)
  from "5.prems" consider "(p', s', g') = (p, s, g)"
    | p1 s1 g1 where "(p1, s1, g1) \<in> set (ms r (p, s, g))" "shorter (p, s, g) (p1, s1, g1)"
        "(p', s', g') \<in> set (ms (Star r) (p1, s1, g1))"
    by (subst (asm) ms.simps(5)) auto
  then show ?case
  proof cases
    case 1
    then show ?thesis by simp
  next
    case 2
    from "5.hyps"(1) [OF 2(1)] obtain w1 where w1: "s = w1 @ s1" "p1 = p + length w1" by blast
    from 2 have "(p1, s1, g1) \<in> set (filter (shorter (p, s, g)) (ms r (p, s, g)))" by simp
    from "5.hyps"(2) [OF this 2(3)]
    obtain w2 where "s1 = w2 @ s'" "p' = p1 + length w2" by blast
    with w1 show ?thesis by auto
  qed
next
  case (6 r p s g)
  from "6.prems" consider "(p', s', g') = (p, s, g)"
    | p1 s1 g1 where "(p1, s1, g1) \<in> set (ms r (p, s, g))" "shorter (p, s, g) (p1, s1, g1)"
        "(p', s', g') \<in> set (ms (LazyStar r) (p1, s1, g1))"
    by (subst (asm) ms.simps(6)) auto
  then show ?case
  proof cases
    case 1
    then show ?thesis by simp
  next
    case 2
    from "6.hyps"(1) [OF 2(1)] obtain w1 where w1: "s = w1 @ s1" "p1 = p + length w1" by blast
    from 2 have "(p1, s1, g1) \<in> set (filter (shorter (p, s, g)) (ms r (p, s, g)))" by simp
    from "6.hyps"(2) [OF this 2(3)]
    obtain w2 where "s1 = w2 @ s'" "p' = p1 + length w2" by blast
    with w1 show ?thesis by auto
  qed
next
  case (7 n r p s g)
  then show ?case by auto
next
  case (8 r p s g)
  then show ?case by (auto split: list.splits)
qed

lemma scan_bounds:
  "scan r p s = Some (b, e, g) \<Longrightarrow> p \<le> b \<and> b \<le> e \<and> e \<le> p + length s"
proof (induction s arbitrary: p)
  case Nil
  then obtain s' where "(e, s', g) \<in> set (ms r (p, [], Map.empty))" and "b = p"
    by (auto split: list.splits)
  with ms_consumes [of e s' g r p "[]" Map.empty] show ?case by auto
next
  case (Cons x xs)
  show ?case
  proof (cases "ms r (p, x # xs, Map.empty)")
    case Nil
    with Cons.prems have "scan r (Suc p) xs = Some (b, e, g)" by simp
    from Cons.IH [OF this] show ?thesis by simp
  next
    case (Cons st sts)
    with Cons.prems obtain s' where in_ms: "(e, s', g) \<in> set (ms r (p, x # xs, Map.empty))"
      and b: "b = p" by (cases st) auto
    from ms_consumes [OF in_ms] obtain w where w: "x # xs = w @ s'" "e = p + length w"
      by blast
    from w(1) have "length (x # xs) = length (w @ s')" by simp
    with w(2) b show ?thesis by simp
  qed
qed

section \<open>The \<open>re\<close> functions the program calls\<close>

text \<open>
  A compiled pattern: the expression, the number of its groups and the numbers of its
  named groups. A match object: the searched string, the span of the whole match and
  the spans of the groups that took part.
\<close>

record pattern =
  p_re :: regex
  p_groups :: nat
  p_names :: "(string \<times> nat) list"

record rmatch =
  m_string :: string
  m_span :: "nat \<times> nat"
  m_groups :: caps

datatype py_error = ReError | IndexError | TypeError

definition mk_match :: "string \<Rightarrow> nat \<times> nat \<times> caps \<Rightarrow> rmatch" where
  "mk_match text r = (case r of (b, e, g) \<Rightarrow> \<lparr>m_string = text, m_span = (b, e), m_groups = g\<rparr>)"

definition m_start :: "rmatch \<Rightarrow> nat \<Rightarrow> int" where
  \<comment> \<open>\<open>m.start(i)\<close>: -1 for a group that took no part in the match\<close>
  "m_start m i =
     (if i = 0 then int (fst (m_span m))
      else case m_groups m i of None \<Rightarrow> - 1 | Some (a, b) \<Rightarrow> int a)"

definition m_end :: "rmatch \<Rightarrow> nat \<Rightarrow> int" where
  "m_end m i =
     (if i = 0 then int (snd (m_span m))
      else case m_groups m i of None \<Rightarrow> - 1 | Some (a, b) \<Rightarrow> int b)"

definition m_group :: "rmatch \<Rightarrow> nat \<Rightarrow> string option" where
  \<comment> \<open>\<open>m.group(i)\<close>: \<open>None\<close> for a group that took no part in the match\<close>
  "m_group m i =
     (if i = 0 then Some (py_slice (m_string m) (m_start m 0) (m_end m 0))
      else case m_groups m i of
             None \<Rightarrow> None
           | Some (a, b) \<Rightarrow> Some (py_slice (m_string m) (int a) (int b)))"

definition re_search :: "pattern \<Rightarrow> string \<Rightarrow> rmatch option" where
  "re_search pat text = map_option (mk_match text) (scan (p_re pat) 0 text)"

text \<open>
  The successive matches that \<open>re.finditer\<close> yields and \<open>re.sub\<close> replaces: the
  leftmost match, then the leftmost match after its end, and so on; \<open>cnt\<close> is the number
  of matches still wanted (\<open>None\<close> for all). After an empty match the scan moves one
  character on. No pattern of the program matches the empty string.
\<close>

function matches_from :: "regex \<Rightarrow> nat option \<Rightarrow> nat \<Rightarrow> string \<Rightarrow> (nat \<times> nat \<times> caps) list" where
  "matches_from r cnt p s =
     (if cnt = Some 0 then []
      else case scan r p s of
             None \<Rightarrow> []
           | Some (b, e, g) \<Rightarrow>
               (b, e, g) #
                 (if e \<le> b then
                    (case drop (b - p) s of
                       [] \<Rightarrow> []
                     | x # xs \<Rightarrow> matches_from r (map_option (\<lambda>k. k - 1) cnt) (Suc b) xs)
                  else matches_from r (map_option (\<lambda>k. k - 1) cnt) e (drop (e - p) s)))"
  by pat_completeness auto
termination
proof (relation "measure (\<lambda>(r, cnt, p, s). length s)", goal_cases)
  case 1
  show ?case by simp
next
  case (2 r cnt p s x2 b y e g x xs)
  have "length (drop (b - p) s) = Suc (length xs)" using 2 by simp
  then show ?case by simp
next
  case (3 r cnt p s x2 b y e g)
  then have "scan r p s = Some (b, e, g)" by simp
  from scan_bounds [OF this] 3 show ?case by auto
qed

declare matches_from.simps [simp del]

definition re_finditer :: "pattern \<Rightarrow> string \<Rightarrow> rmatch list" where
  "re_finditer pat text = map (mk_match text) (matches_from (p_re pat) None 0 text)"

subsection \<open>Replacement templates\<close>

text \<open>
  \<open>re.sub\<close> with a string as replacement parses it as a template: \<open>\g<name>\<close>,
  \<open>\g<number>\<close> and \<open>\number\<close> refer to groups, \<open>\n\<close> and its kin are control
  characters, up to three octal digits are a character code, a backslash before any
  other ASCII letter or at the end of the template is an error, and a backslash before
  anything else stays as it is. A group name that is neither an identifier nor a run of
  decimal digits is an error.
\<close>

datatype titem = TChar char | TGroup nat

definition is_identifier :: "string \<Rightarrow> bool" where
  "is_identifier name =
     (case name of
        [] \<Rightarrow> False
      | c # cs \<Rightarrow>
          (is_ascii_letter c \<or> c = CHR ''_'' \<or> is_latin1_letter c) \<and>
          list_all (\<lambda>d. is_ascii_letter d \<or> d = CHR ''_'' \<or> is_latin1_letter d \<or>
                         is_digit d \<or> (of_char d :: nat) = 183) cs)"

definition digit_val :: "char \<Rightarrow> nat" where
  "digit_val c = (of_char c :: nat) - 48"

definition dec_val :: "string \<Rightarrow> nat" where
  "dec_val ds = foldl (\<lambda>n d. 10 * n + digit_val d) 0 ds"

definition oct_val :: "string \<Rightarrow> nat" where
  "oct_val ds = foldl (\<lambda>n d. 8 * n + digit_val d) 0 ds"

definition escape_char :: "char \<Rightarrow> char option" where
  \<comment> \<open>the table \<open>ESCAPES\<close> of the template parser\<close>
  "escape_char c =
     map_of [(CHR ''a'', CHR 0x07), (CHR ''b'', CHR 0x08), (CHR ''f'', CHR 0x0C),
             (CHR ''n'', CHR 0x0A), (CHR ''r'', CHR 0x0D), (CHR ''t'', CHR 0x09),
             (CHR ''v'', CHR 0x0B), (bslash, bslash)] c"

definition tcons :: "titem list \<Rightarrow> py_error + titem list \<Rightarrow> py_error + titem list" where
  "tcons xs r = (case r of Inl e \<Rightarrow> Inl e | Inr ys \<Rightarrow> Inr (xs @ ys))"

function parse_template :: "pattern \<Rightarrow> string \<Rightarrow> py_error + titem list" where
  "parse_template pat [] = Inr []"
| "parse_template pat (c # cs) =
     (if c \<noteq> bslash then tcons [TChar c] (parse_template pat cs)
      else case cs of
        [] \<Rightarrow> Inl ReError
      | d # ds \<Rightarrow>
          if d = CHR ''g'' then
            (case ds of
               [] \<Rightarrow> Inl ReError
             | lt # es \<Rightarrow>
                 if lt \<noteq> CHR ''<'' then Inl ReError
                 else let name = takeWhile (\<lambda>x. x \<noteq> CHR ''>'') es;
                          rest = drop (Suc (length name)) es
                      in if length name = length es \<or> name = [] then Inl ReError
                         else if rest = [bslash] then Inl ReError
                         else if is_identifier name then
                           (case map_of (p_names pat) name of
                              None \<Rightarrow> Inl IndexError
                            | Some i \<Rightarrow> tcons [TGroup i] (parse_template pat rest))
                         else if list_all is_digit name then
                           (if dec_val name > p_groups pat then Inl ReError
                            else tcons [TGroup (dec_val name)] (parse_template pat rest))
                         else Inl ReError)
          else if d = CHR ''0'' then
            (let ods = takeWhile is_octdigit (take 2 ds)
             in tcons [TChar (char_of (oct_val ods mod 256))]
                  (parse_template pat (drop (length ods) ds)))
          else if is_digit d then
            (case ds of
               [] \<Rightarrow> (if digit_val d > p_groups pat then Inl ReError else Inr [TGroup (digit_val d)])
             | d2 # ds2 \<Rightarrow>
                 if \<not> is_digit d2 then
                   (if digit_val d > p_groups pat then Inl ReError
                    else tcons [TGroup (digit_val d)] (parse_template pat ds))
                 else
                   (case ds2 of
                      d3 # ds3 \<Rightarrow>
                        if is_octdigit d \<and> is_octdigit d2 \<and> is_octdigit d3 then
                          (if oct_val [d, d2, d3] > 255 then Inl ReError
                           else tcons [TChar (char_of (oct_val [d, d2, d3]))]
                                  (parse_template pat ds3))
                        else if dec_val [d, d2] > p_groups pat then Inl ReError
                        else tcons [TGroup (dec_val [d, d2])] (parse_template pat ds2)
                    | [] \<Rightarrow>
                        if dec_val [d, d2] > p_groups pat then Inl ReError
                        else Inr [TGroup (dec_val [d, d2])]))
          else
            (case escape_char d of
               Some e \<Rightarrow> tcons [TChar e] (parse_template pat ds)
             | None \<Rightarrow>
                 if is_ascii_letter d then Inl ReError
                 else tcons [TChar bslash, TChar d] (parse_template pat ds)))"
  by pat_completeness auto
termination
  by (relation "measure (\<lambda>(pat, s). length s)") (auto simp: less_Suc_eq_le)

declare parse_template.simps(2) [simp del]

definition expand_item :: "rmatch \<Rightarrow> titem \<Rightarrow> string" where
  \<comment> \<open>a group that took no part in the match expands to the empty string\<close>
  "expand_item m it =
     (case it of
        TChar c \<Rightarrow> [c]
      | TGroup i \<Rightarrow> (case m_group m i of None \<Rightarrow> [] | Some w \<Rightarrow> w))"

definition expand_template :: "titem list \<Rightarrow> rmatch \<Rightarrow> string" where
  "expand_template items m = concat (map (expand_item m) items)"

subsection \<open>\<open>re.sub\<close>\<close>

fun splice :: "string \<Rightarrow> titem list \<Rightarrow> nat \<Rightarrow> (nat \<times> nat \<times> caps) list \<Rightarrow> string" where
  \<comment> \<open>the text between the matches, with each match replaced by its expansion\<close>
  "splice text items pos [] = drop pos text"
| "splice text items pos ((b, e, g) # rs) =
     take (b - pos) (drop pos text) @ expand_template items (mk_match text (b, e, g)) @
     splice text items e rs"

definition re_sub :: "pattern \<Rightarrow> string \<Rightarrow> string \<Rightarrow> nat \<Rightarrow> py_error + string" where
  \<comment> \<open>\<open>re.sub(pat, repl, text, count)\<close>; \<open>count = 0\<close> replaces every match\<close>
  "re_sub pat repl text count =
     (case parse_template pat repl of
        Inl e \<Rightarrow> Inl e
      | Inr items \<Rightarrow>
          Inr (splice text items 0
                 (matches_from (p_re pat) (if count = 0 then None else Some count) 0 text)))"

definition ebind :: "py_error + 'a \<Rightarrow> ('a \<Rightarrow> py_error + 'b) \<Rightarrow> py_error + 'b" where
  \<comment> \<open>run the next statement unless an exception was raised\<close>
  "ebind r f = (case r of Inl e \<Rightarrow> Inl e | Inr x \<Rightarrow> f x)"

lemma ebind_simps [simp]:
  "ebind (Inl e) f = Inl e"
  "ebind (Inr x) f = f x"
  by (simp_all add: ebind_def)

lemma ebind_weak_cong [cong]: "r = r' \<Longrightarrow> ebind r f = ebind r' f"
  by simp

section \<open>The patterns of the program\<close>

definition closing_tag :: "string \<Rightarrow> regex" where
  \<comment> \<open>\<open><\\*/+name>\<close>: any number of backslashes, then one or more slashes\<close>
  "closing_tag name =
     seqs [lit ''<'', Star (Atom (Lit bslash)), Plus (Atom (Lit CHR ''/'')), lit name, lit ''>'']"

definition opt_slash :: regex where
  \<comment> \<open>\<open>\\{0,1}/{1}\<close>: an optional backslash, then one slash\<close>
  "opt_slash = Seq (Opt (Atom (Lit bslash))) (Atom (Lit CHR ''/''))"

definition wrap_pattern :: "string \<Rightarrow> string \<Rightarrow> pattern" where
  \<comment> \<open>\<open><(a|b)>(?P<content>.*?)(?P<nbsp>&nbsp;)*<\\*/+(a|b)>\<close>\<close>
  "wrap_pattern a b =
     \<lparr>p_re = seqs [lit ''<'', Group 1 (Alt (lit a) (lit b)), lit ''>'',
                    Group 2 (LazyStar (Atom Dot)),
                    Star (Group 3 (lit ''&nbsp;'')),
                    lit ''<'', Star (Atom (Lit bslash)), Plus (Atom (Lit CHR ''/'')),
                    Group 4 (Alt (lit a) (lit b)), lit ''>''],
      p_groups = 4, p_names = [(''content'', 2), (''nbsp'', 3)]\<rparr>"

definition del_pattern :: pattern where
  \<comment> \<open>\<open><(del)>(?P<content>.*?)(?P<nbsp>&nbsp;)*<\\*/+(del)>\<close>\<close>
  "del_pattern =
     \<lparr>p_re = seqs [lit ''<'', Group 1 (lit ''del''), lit ''>'',
                    Group 2 (LazyStar (Atom Dot)),
                    Star (Group 3 (lit ''&nbsp;'')),
                    lit ''<'', Star (Atom (Lit bslash)), Plus (Atom (Lit CHR ''/'')),
                    Group 4 (lit ''del''), lit ''>''],
      p_groups = 4, p_names = [(''content'', 2), (''nbsp'', 3)]\<rparr>"

definition underline_pattern :: pattern where
  \<comment> \<open>\<open>(<span.*?style.*?underline.*?>)(?P<text>.*?\w.*?)(<\\{0,1}/{1}span>)\<close>\<close>
  "underline_pattern =
     \<lparr>p_re = seqs [Group 1 (seqs [lit ''<span'', LazyStar (Atom Dot), lit ''style'',
                                  LazyStar (Atom Dot), lit ''underline'',
                                  LazyStar (Atom Dot), lit ''>'']),
                    Group 2 (seqs [LazyStar (Atom Dot), Atom Word, LazyStar (Atom Dot)]),
                    Group 3 (seqs [lit ''<'', opt_slash, lit ''span>''])],
      p_groups = 3, p_names = [(''text'', 2)]\<rparr>"

definition plain_pattern :: "string \<Rightarrow> pattern" where
  \<comment> \<open>a pattern that is a run of ordinary characters\<close>
  "plain_pattern s = \<lparr>p_re = lit s, p_groups = 0, p_names = []\<rparr>"

definition to_replace_simple :: "pattern list" where
  "to_replace_simple =
     [wrap_pattern ''em'' ''i'', wrap_pattern ''strong'' ''b'', del_pattern, underline_pattern,
      plain_pattern ''<h1>'', plain_pattern ''<h2>'', plain_pattern ''<h3>'',
      plain_pattern ''&nbsp;'']"

definition replace_with_simple :: "string list" where
  "replace_with_simple =
     [''*'' @ bslash # ''g<content>*'' @ bslash # ''g<nbsp>'',
      ''**'' @ bslash # ''g<content>**'' @ bslash # ''g<nbsp>'',
      ''~~'' @ bslash # ''g<content>~~'' @ bslash # ''g<nbsp>'',
      ''*'' @ bslash # ''g<text>*'',
      bslash # ''n# '',
      bslash # ''n## '',
      bslash # ''n##### '',
      '' '']"

definition to_remove_simple :: "pattern list" where
  \<comment> \<open>\<open><p\s.*?>\<close>, \<open><(\\{0,1}/{1}){0,1}p>\<close>, \<open><(\\{0,1}/{1}){0,1}h\d+>\<close>,
      \<open><(\\{0,1}/{1}){0,1}del>\<close>, \<open><(\\{0,1}/{1}){0,1}span\s{0,1}.*?>\<close>\<close>
  "to_remove_simple =
     [\<lparr>p_re = seqs [lit ''<p'', Atom Space, LazyStar (Atom Dot), lit ''>''],
       p_groups = 0, p_names = []\<rparr>,
      \<lparr>p_re = seqs [lit ''<'', Opt (Group 1 opt_slash), lit ''p>''],
       p_groups = 1, p_names = []\<rparr>,
      \<lparr>p_re = seqs [lit ''<'', Opt (Group 1 opt_slash), lit ''h'', Plus (Atom Digit), lit ''>''],
       p_groups = 1, p_names = []\<rparr>,
      \<lparr>p_re = seqs [lit ''<'', Opt (Group 1 opt_slash), lit ''del>''],
       p_groups = 1, p_names = []\<rparr>,
      \<lparr>p_re = seqs [lit ''<'', Opt (Group 1 opt_slash), lit ''span'', Opt (Atom Space),
                     LazyStar (Atom Dot), lit ''>''],
       p_groups = 1, p_names = []\<rparr>]"

definition ol_parent_search_pattern :: pattern where
  \<comment> \<open>\<open>(<ol>)(\s*)(.*?)(<\\*/+ol>)\<close>, used with DOTALL\<close>
  "ol_parent_search_pattern =
     \<lparr>p_re = seqs [Group 1 (lit ''<ol>''), Group 2 (Star (Atom Space)),
                    Group 3 (LazyStar (Atom DotAll)), Group 4 (closing_tag ''ol'')],
      p_groups = 4, p_names = []\<rparr>"

definition ul_parent_search_pattern :: pattern where
  \<comment> \<open>\<open>(?P<opening_tag><ul.*?>)(?P<newline>\s*)(?P<contents>.*?)(<\\*/+ul>)\<close>,
      used with DOTALL\<close>
  "ul_parent_search_pattern =
     \<lparr>p_re = seqs [Group 1 (seqs [lit ''<ul'', LazyStar (Atom DotAll), lit ''>'']),
                    Group 2 (Star (Atom Space)),
                    Group 3 (LazyStar (Atom DotAll)), Group 4 (closing_tag ''ul'')],
      p_groups = 4, p_names = [(''opening_tag'', 1), (''newline'', 2), (''contents'', 3)]\<rparr>"

definition tl_start_search_pattern :: pattern where
  \<comment> \<open>\<open>(<ul\s*class=\"task\">)\<close>\<close>
  "tl_start_search_pattern =
     \<lparr>p_re = seqs [Group 1 (seqs [lit ''<ul'', Star (Atom Space), lit ''class=\"task\">''])],
      p_groups = 1, p_names = []\<rparr>"

definition li_search_pattern :: pattern where
  \<comment> \<open>\<open>(<li>)(?P<contents>.*?)(<\\*/+li>)(?P<newline>\s*)\<close>, used without flags\<close>
  "li_search_pattern =
     \<lparr>p_re = seqs [Group 1 (lit ''<li>''), Group 2 (LazyStar (Atom Dot)),
                    Group 3 (closing_tag ''li''), Group 4 (Star (Atom Space))],
      p_groups = 4, p_names = [(''contents'', 2), (''newline'', 4)]\<rparr>"

definition li_close_pattern :: pattern where
  \<comment> \<open>\<open><\\*/+li>\<close>\<close>
  "li_close_pattern = \<lparr>p_re = closing_tag ''li'', p_groups = 0, p_names = []\<rparr>"

definition quote_parent_search_pattern :: pattern where
  \<comment> \<open>\<open>(<blockquote>)(?P<contents>.*?)(<\\*/+blockquote>)\<close>, used with DOTALL\<close>
  "quote_parent_search_pattern =
     \<lparr>p_re = seqs [Group 1 (lit ''<blockquote>''), Group 2 (LazyStar (Atom DotAll)),
                    Group 3 (closing_tag ''blockquote'')],
      p_groups = 3, p_names = [(''contents'', 2)]\<rparr>"

definition quote_contents_search_pattern :: pattern where
  \<comment> \<open>\<open>(\n)(?P<contents>.*?(?=\n))\<close>, used with DOTALL\<close>
  "quote_contents_search_pattern =
     \<lparr>p_re = seqs [Group 1 (Atom (Lit newline)),
                    Group 2 (Seq (LazyStar (Atom DotAll)) (Look (Atom (Lit newline))))],
      p_groups = 2, p_names = [(''contents'', 2)]\<rparr>"

definition coffee_shop_search_pattern :: pattern where
  \<comment> \<open>\<open>(C|c)(offee)(S|s)(hop)\<close>\<close>
  "coffee_shop_search_pattern =
     \<lparr>p_re = seqs [Group 1 (Alt (lit ''C'') (lit ''c'')), Group 2 (lit ''offee''),
                    Group 3 (Alt (lit ''S'') (lit ''s'')), Group 4 (lit ''hop'')],
      p_groups = 4, p_names = []\<rparr>"

definition hr_pattern :: pattern where
  \<comment> \<open>\<open><hr( dir.*?){0,1}>\<close>\<close>
  "hr_pattern =
     \<lparr>p_re = seqs [lit ''<hr'', Opt (Group 1 (Seq (lit '' dir'') (LazyStar (Atom Dot)))),
                    lit ''>''],
      p_groups = 1, p_names = []\<rparr>"

text \<open>
  The name patterns are built from the table at run time. The names hold letters and
  spaces only, so the pattern text is a run of ordinary characters, or two of them
  separated by the alternation bar.
\<close>

fun split_bar :: "string \<Rightarrow> string list" where
  "split_bar [] = [[]]"
| "split_bar (c # cs) =
     (if c = CHR ''|'' then [] # split_bar cs
      else case split_bar cs of [] \<Rightarrow> [[c]] | w # ws \<Rightarrow> (c # w) # ws)"

fun alts :: "string list \<Rightarrow> regex" where
  "alts [] = Eps"
| "alts [a] = lit a"
| "alts (a # b # rest) = Alt (lit a) (alts (b # rest))"

definition re_compile_names :: "string \<Rightarrow> pattern" where
  "re_compile_names s = \<lparr>p_re = alts (split_bar s), p_groups = 0, p_names = []\<rparr>"

section \<open>The converter\<close>

subsection \<open>\<open>convert_simple\<close>\<close>

fun sub_each :: "(pattern \<times> string) list \<Rightarrow> string \<Rightarrow> py_error + string" where
  \<comment> \<open>\<open>for pair in pairs: text = re.sub(pair[0], pair[1], text)\<close>\<close>
  "sub_each [] text = Inr text"
| "sub_each (pair # pairs) text =
     ebind (re_sub (fst pair) (snd pair) text 0) (sub_each pairs)"

definition convert_simple :: "string \<Rightarrow> py_error + string" where
  "convert_simple text =
     ebind (sub_each (zip to_replace_simple replace_with_simple) text)
       (sub_each (map (\<lambda>to_remove. (to_remove, [])) to_remove_simple))"

subsection \<open>\<open>convert_lists\<close>\<close>

fun li_loop :: "string \<Rightarrow> nat \<Rightarrow> rmatch list \<Rightarrow> py_error + string" where
  \<comment> \<open>the \<open>for\<close> loop that builds \<open>li_str\<close>; groups 2 and 4 of the item pattern are
      \<open>contents\<close> and \<open>newline\<close>\<close>
  "li_loop li_str li_index [] = Inr li_str"
| "li_loop li_str li_index (li_match # rest) =
     (case (m_group li_match 2, m_group li_match 4) of
        (Some contents, Some nl) \<Rightarrow>
          (let line_num = bslash # ''n'' @ str_nat li_index @ ''. ''
           in li_loop (li_str @ line_num @ contents @ nl) (Suc li_index) rest)
      | _ \<Rightarrow> Inl TypeError)"

definition ol_step :: "string \<Rightarrow> rmatch \<Rightarrow> py_error + string" where
  \<comment> \<open>one pass through the body of the ordered-list loop\<close>
  "ol_step text ol_match =
     (let ol_substring = py_slice text (m_start ol_match 0) (m_end ol_match 0);
          li_iter = re_finditer li_search_pattern ol_substring
      in ebind (li_loop [] 1 li_iter)
           (\<lambda>li_str. re_sub ol_parent_search_pattern (bslash # ''2'' @ li_str) text 1))"

partial_function (option) ol_loop :: "string \<Rightarrow> (py_error + string) option" where
  "ol_loop text =
     (case re_search ol_parent_search_pattern text of
        None \<Rightarrow> Some (Inr text)
      | Some ol_match \<Rightarrow>
          (case ol_step text ol_match of
             Inl e \<Rightarrow> Some (Inl e)
           | Inr text' \<Rightarrow> ol_loop text'))"

declare ol_loop.simps [code]

definition ul_items :: "string \<Rightarrow> string \<Rightarrow> py_error + string" where
  \<comment> \<open>the rewriting of \<open>ul_substring\<close>, given the opening tag of the block\<close>
  "ul_items opening_tag ul_substring =
     ebind
       (if re_search tl_start_search_pattern opening_tag \<noteq> None then
          ebind (re_sub (plain_pattern ''<li data-checked=\"true\">'') (bslash # ''n- [X] '')
                   ul_substring 0)
            (\<lambda>ul_substring. re_sub (plain_pattern ''<li>'') (bslash # ''n- [ ] '') ul_substring 0)
        else re_sub (plain_pattern ''<li>'') (bslash # ''n- '') ul_substring 0)
       (\<lambda>ul_substring. re_sub li_close_pattern [] ul_substring 0)"

definition ul_step :: "string \<Rightarrow> rmatch \<Rightarrow> py_error + string" where
  \<comment> \<open>one pass through the body of the unordered-list loop; groups 1, 2 and 3 of the
      block pattern are \<open>opening_tag\<close>, \<open>newline\<close> and \<open>contents\<close>\<close>
  "ul_step text ul_match =
     (let ul_substring = py_slice text (m_start ul_match 2) (m_end ul_match 3)
      in case m_group ul_match 1 of
           None \<Rightarrow> Inl TypeError
         | Some opening_tag \<Rightarrow>
             ebind (ul_items opening_tag ul_substring)
               (\<lambda>ul_substring.
                  re_sub ul_parent_search_pattern (bslash # ''2'' @ ul_substring) text 1))"

partial_function (option) ul_loop :: "string \<Rightarrow> (py_error + string) option" where
  "ul_loop text =
     (case re_search ul_parent_search_pattern text of
        None \<Rightarrow> Some (Inr text)
      | Some ul_match \<Rightarrow>
          (case ul_step text ul_match of
             Inl e \<Rightarrow> Some (Inl e)
           | Inr text' \<Rightarrow> ul_loop text'))"

declare ul_loop.simps [code]

definition obind ::
  "(py_error + 'a) option \<Rightarrow> ('a \<Rightarrow> (py_error + 'b) option) \<Rightarrow> (py_error + 'b) option" where
  \<comment> \<open>sequencing for code that may raise or may not return\<close>
  "obind r f = (case r of None \<Rightarrow> None | Some (Inl e) \<Rightarrow> Some (Inl e) | Some (Inr x) \<Rightarrow> f x)"

lemma obind_simps [simp]:
  "obind None f = None"
  "obind (Some (Inl e)) f = Some (Inl e)"
  "obind (Some (Inr x)) f = f x"
  by (simp_all add: obind_def)

lemma obind_weak_cong [cong]: "r = r' \<Longrightarrow> obind r f = obind r' f"
  by simp

definition convert_lists :: "string \<Rightarrow> (py_error + string) option" where
  "convert_lists text = obind (ol_loop text) ul_loop"

subsection \<open>\<open>convert_quote_blocks\<close>\<close>

definition quote_step :: "string \<Rightarrow> rmatch \<Rightarrow> py_error + string" where
  \<comment> \<open>one pass through the body of the blockquote loop; group 2 is \<open>contents\<close>\<close>
  "quote_step text quote_match =
     (let quote_substring = py_slice text (m_start quote_match 2) (m_end quote_match 2)
      in ebind (re_sub quote_contents_search_pattern
                  (bslash # ''n'' @ ''> '' @ bslash # ''g<contents>'') quote_substring 0)
           (\<lambda>quote_substring. re_sub quote_parent_search_pattern quote_substring text 1))"

partial_function (option) quote_loop :: "string \<Rightarrow> (py_error + string) option" where
  "quote_loop text =
     (case re_search quote_parent_search_pattern text of
        None \<Rightarrow> Some (Inr text)
      | Some quote_match \<Rightarrow>
          (case quote_step text quote_match of
             Inl e \<Rightarrow> Some (Inl e)
           | Inr text' \<Rightarrow> quote_loop text'))"

declare quote_loop.simps [code]

definition convert_quote_blocks :: "string \<Rightarrow> (py_error + string) option" where
  "convert_quote_blocks text = quote_loop text"

subsection \<open>\<open>perform_phrase_replacements\<close> and \<open>fix_name_spellings\<close>\<close>

definition perform_phrase_replacements :: "string \<Rightarrow> py_error + string" where
  "perform_phrase_replacements text =
     re_sub coffee_shop_search_pattern
       (bslash # ''1'' @ bslash # ''2 '' @ bslash # ''3'' @ bslash # ''4'') text 0"

definition names_to_fix :: "(string \<times> string option list) list" where
  \<comment> \<open>the dictionary, in insertion order; \<open>None\<close> stands for "no misspelling"\<close>
  "names_to_fix =
     [(''Name One'', [Some ''Nome One'']),
      (''Name Two'', [Some ''Nome Two'', Some ''Neme Two'']),
      (''Name Three'', [None])]"

fun fix_mispellings :: "string \<Rightarrow> string option list \<Rightarrow> string \<Rightarrow> py_error + string" where
  \<comment> \<open>\<open>for mispelling in mispellings: ...\<close>\<close>
  "fix_mispellings correct_name [] text = Inr text"
| "fix_mispellings correct_name (None # rest) text = fix_mispellings correct_name rest text"
| "fix_mispellings correct_name (Some mispelling # rest) text =
     ebind (re_sub (re_compile_names (upper mispelling)) (upper correct_name) text 0)
       (\<lambda>text. ebind (re_sub (re_compile_names (mispelling @ ''|'' @ lower mispelling))
                          correct_name text 0)
                  (fix_mispellings correct_name rest))"

fun fix_names :: "(string \<times> string option list) list \<Rightarrow> string \<Rightarrow> py_error + string" where
  \<comment> \<open>\<open>for correct_name, mispellings in names_to_fix.items(): ...\<close>\<close>
  "fix_names [] text = Inr text"
| "fix_names ((correct_name, mispellings) # rest) text =
     ebind (re_sub (re_compile_names (lower correct_name)) correct_name text 0)
       (\<lambda>text. ebind (fix_mispellings correct_name mispellings text) (fix_names rest))"

definition fix_name_spellings :: "string \<Rightarrow> py_error + string" where
  "fix_name_spellings text = fix_names names_to_fix text"

subsection \<open>\<open>convert_journey_html_to_dayone_markdown\<close>\<close>

definition lift :: "py_error + 'a \<Rightarrow> (py_error + 'a) option" where
  \<comment> \<open>a step without a loop always returns\<close>
  "lift r = Some r"

definition convert_journey_html_to_dayone_markdown :: "string \<Rightarrow> (py_error + string) option" where
  "convert_journey_html_to_dayone_markdown text =
     obind (lift (convert_simple text)) (\<lambda>text.
     obind (convert_lists text) (\<lambda>text.
     obind (lift (perform_phrase_replacements text)) (\<lambda>text.
     obind (lift (fix_name_spellings text)) (\<lambda>text.
     obind (convert_quote_blocks text) (\<lambda>text.
     lift (re_sub hr_pattern (bslash # ''n---'') text 0))))))"

section \<open>Evaluating the converter on concrete inputs\<close>

text \<open>The definitions that the simplifier unfolds to run the model on a closed input.\<close>

lemmas evals = re_sub_def plain_pattern_def matches_from.simps parse_template.simps ms.simps
  bslash_def newline_def tcons_def expand_template_def expand_item_def mk_match_def
  m_group_def m_start_def m_end_def py_slice_def shorter_def escape_char_def is_ascii_letter_def
  is_digit_def is_octdigit_def Plus_def Opt_def is_identifier_def is_latin1_letter_def
  dec_val_def oct_val_def digit_val_def is_word_def is_space_def
  wrap_pattern_def del_pattern_def underline_pattern_def to_replace_simple_def replace_with_simple_def
  to_remove_simple_def opt_slash_def closing_tag_def convert_simple_def
  re_search_def re_finditer_def ol_parent_search_pattern_def ul_parent_search_pattern_def
  tl_start_search_pattern_def li_search_pattern_def li_close_pattern_def
  quote_parent_search_pattern_def quote_contents_search_pattern_def coffee_shop_search_pattern_def
  hr_pattern_def re_compile_names_def ol_step_def ul_step_def ul_items_def quote_step_def
  lift_def convert_lists_def convert_quote_blocks_def perform_phrase_replacements_def
  names_to_fix_def fix_name_spellings_def convert_journey_html_to_dayone_markdown_def
  lower_def upper_def lower_char_def upper_char_def str_nat.simps
  ol_loop.simps ul_loop.simps quote_loop.simps lit.simps


section \<open>General lemmas about substitution\<close>

lemma parse_template_plain:
  "bslash \<notin> set s \<Longrightarrow> parse_template pat s = Inr (map TChar s)"
  by (induction s) (auto simp: parse_template.simps(2) tcons_def)

lemma expand_template_chars [simp]: "expand_template (map TChar s) m = s"
  by (induction s) (simp_all add: expand_template_def expand_item_def)

lemma matches_from_no_match: "scan r p s = None \<Longrightarrow> matches_from r cnt p s = []"
  by (simp add: matches_from.simps)

lemma re_sub_no_match:
  assumes "re_search pat text = None" and "parse_template pat repl = Inr items"
  shows "re_sub pat repl text count = Inr text"
  using assms by (simp add: re_sub_def re_search_def matches_from_no_match)

lemma matches_from_once:
  "scan r p s = Some (b, e, g) \<Longrightarrow> matches_from r (Some (Suc 0)) p s = [(b, e, g)]"
  by (subst matches_from.simps) (simp add: matches_from.simps [of r "Some 0"] split: list.splits)

lemma py_slice_nat:
  "a \<le> b \<Longrightarrow> b \<le> length s \<Longrightarrow> py_slice s (int a) (int b) = take (b - a) (drop a s)"
  by (simp add: py_slice_def Let_def min_def nat_diff_distrib')

lemma re_sub_once:
  assumes "scan (p_re pat) 0 text = Some (b, e, g)" and "bslash \<notin> set repl"
  shows "re_sub pat repl text 1 = Inr (take b text @ repl @ drop e text)"
  using assms by (simp add: re_sub_def parse_template_plain matches_from_once)

text \<open>The substitution loop, one character at a time.\<close>

definition rsub :: "string \<Rightarrow> regex \<Rightarrow> titem list \<Rightarrow> nat \<Rightarrow> string \<Rightarrow> string" where
  "rsub text r items p s = splice text items p (matches_from r None p s)"

lemma re_sub_rsub:
  "parse_template pat repl = Inr items \<Longrightarrow>
   re_sub pat repl text 0 = Inr (rsub text (p_re pat) items 0 text)"
  by (simp add: re_sub_def rsub_def)

lemma matches_from_head_bound:
  "matches_from r cnt p s = (b, e, g) # rs \<Longrightarrow> p \<le> b"
  by (subst (asm) matches_from.simps) (auto split: if_splits option.splits dest: scan_bounds)

lemma matches_from_skip:
  assumes "ms r (p, x # xs, Map.empty) = []"
  shows "matches_from r cnt p (x # xs) = matches_from r cnt (Suc p) xs"
proof (cases "scan r (Suc p) xs")
  case None
  with assms show ?thesis by (simp add: matches_from.simps)
next
  case (Some m)
  obtain b e g where m: "m = (b, e, g)" by (cases m)
  from scan_bounds [of r "Suc p" xs b e g] Some m have bnd: "Suc p \<le> b" "b \<le> e" by auto
  then have "b - p = Suc (b - Suc p)" "e - p = Suc (e - Suc p)" by auto
  with assms Some m show ?thesis
    by (simp add: matches_from.simps [of r cnt p] matches_from.simps [of r cnt "Suc p"])
qed

lemma rsub_Nil:
  assumes "ms r (p, [], Map.empty) = []" and "length text \<le> p"
  shows "rsub text r items p [] = []"
  using assms by (simp add: rsub_def matches_from.simps)

lemma rsub_skip:
  assumes nomatch: "ms r (p, x # xs, Map.empty) = []" and here: "drop p text = x # xs"
  shows "rsub text r items p (x # xs) = x # rsub text r items (Suc p) xs"
proof -
  from here have xs: "drop (Suc p) text = xs"
    by (metis drop_Suc tl_drop list.sel(3))
  show ?thesis
  proof (cases "matches_from r None (Suc p) xs")
    case Nil
    with nomatch here xs show ?thesis by (simp add: rsub_def matches_from_skip)
  next
    case (Cons m rs)
    obtain b e g where m: "m = (b, e, g)" by (cases m)
    from matches_from_head_bound [of r None "Suc p" xs b e g rs] Cons m have "Suc p \<le> b" by simp
    then have "b - p = Suc (b - Suc p)" by simp
    with nomatch here xs Cons m show ?thesis by (simp add: rsub_def matches_from_skip)
  qed
qed

lemma rsub_match:
  assumes hd: "ms r (p, s, Map.empty) = (e, s', g) # rest" and adv: "p < e"
  shows "rsub text r items p s = expand_template items (mk_match text (p, e, g)) @ rsub text r items e s'"
proof -
  from hd have "(e, s', g) \<in> set (ms r (p, s, Map.empty))" by simp
  from ms_consumes [OF this] obtain w where w: "s = w @ s'" "e = p + length w" by blast
  then have s': "drop (e - p) s = s'" by simp
  from hd have "scan r p s = Some (p, e, g)" by (cases s) simp_all
  with adv s' show ?thesis
    by (simp add: rsub_def matches_from.simps [of r None p s])
qed

subsection \<open>Literal patterns\<close>

declare lit.simps [simp del]

lemma ms_lit:
  "ms (lit w) (p, s, g) = (if prefix w s then [(p + length w, drop (length w) s, g)] else [])"
proof (induction w arbitrary: p s)
  case Nil
  show ?case by (simp add: lit.simps)
next
  case (Cons c w)
  show ?case
  proof (cases s)
    case Nil
    then show ?thesis by (simp add: lit.simps)
  next
    case (Cons x xs)
    with Cons.IH show ?thesis by (simp add: lit.simps)
  qed
qed

function replace_all :: "string \<Rightarrow> string \<Rightarrow> string \<Rightarrow> string" where
  "replace_all w r [] = []"
| "replace_all w r (x # xs) =
     (if w \<noteq> [] \<and> prefix w (x # xs) then r @ replace_all w r (drop (length w - 1) xs)
      else x # replace_all w r xs)"
  by pat_completeness auto
termination
  by (relation "measure (\<lambda>(w, r, s). length s)") auto

function replace_either :: "string \<Rightarrow> string \<Rightarrow> string \<Rightarrow> string \<Rightarrow> string" where
  "replace_either a b r [] = []"
| "replace_either a b r (x # xs) =
     (if a \<noteq> [] \<and> prefix a (x # xs) then r @ replace_either a b r (drop (length a - 1) xs)
      else if b \<noteq> [] \<and> prefix b (x # xs) then r @ replace_either a b r (drop (length b - 1) xs)
      else x # replace_either a b r xs)"
  by pat_completeness auto
termination
  by (relation "measure (\<lambda>(a, b, r, s). length s)") auto

lemma drop_more: "drop p text = s \<Longrightarrow> drop (p + k) text = drop k s"
  by (auto simp: add.commute)

lemma rsub_lit:
  "w \<noteq> [] \<Longrightarrow> (\<forall>m. expand_template items m = r) \<Longrightarrow> drop p text = s \<Longrightarrow>
   rsub text (lit w) items p s = replace_all w r s"
proof (induction w r s arbitrary: p rule: replace_all.induct)
  case (1 w r)
  then have "ms (lit w) (p, [], Map.empty) = []" by (simp add: ms_lit)
  from rsub_Nil [OF this] 1 show ?case by simp
next
  case (2 w r x xs)
  note nonempty = "2.prems"(1) and const = "2.prems"(2) and here = "2.prems"(3)
  show ?case
  proof (cases "prefix w (x # xs)")
    case True
    with nonempty have hd: "ms (lit w) (p, x # xs, Map.empty)
        = (p + length w, drop (length w - 1) xs, Map.empty) # []"
      by (cases w) (simp_all add: ms_lit)
    from nonempty have adv: "p < p + length w" by simp
    from drop_more [OF here, of "length w"] nonempty
    have "drop (p + length w) text = drop (length w - 1) xs"
      by (cases w) simp_all
    from "2.IH"(1) [OF _ nonempty const this] True nonempty
    have "rsub text (lit w) items (p + length w) (drop (length w - 1) xs)
        = replace_all w r (drop (length w - 1) xs)" by simp
    with rsub_match [OF hd adv] True nonempty const show ?thesis by simp
  next
    case False
    then have no: "ms (lit w) (p, x # xs, Map.empty) = []" by (simp add: ms_lit)
    from here have "drop (Suc p) text = xs" by (metis drop_Suc tl_drop list.sel(3))
    from "2.IH"(2) [OF _ nonempty const this] False
    have "rsub text (lit w) items (Suc p) xs = replace_all w r xs" by simp
    with rsub_skip [OF no here] False show ?thesis by simp
  qed
qed

lemma rsub_alt_lit:
  "a \<noteq> [] \<Longrightarrow> b \<noteq> [] \<Longrightarrow> (\<forall>m. expand_template items m = r) \<Longrightarrow> drop p text = s \<Longrightarrow>
   rsub text (Alt (lit a) (lit b)) items p s = replace_either a b r s"
proof (induction a b r s arbitrary: p rule: replace_either.induct)
  case (1 a b r)
  then have "ms (Alt (lit a) (lit b)) (p, [], Map.empty) = []" by (simp add: ms_lit)
  from rsub_Nil [OF this] 1 show ?case by simp
next
  case (2 a b r x xs)
  note ne_a = "2.prems"(1) and ne_b = "2.prems"(2) and const = "2.prems"(3)
    and here = "2.prems"(4)
  from here have next_pos: "drop (Suc p) text = xs" by (metis drop_Suc tl_drop list.sel(3))
  show ?case
  proof (cases "prefix a (x # xs)")
    case True
    with ne_a obtain rest where hd: "ms (Alt (lit a) (lit b)) (p, x # xs, Map.empty)
        = (p + length a, drop (length a - 1) xs, Map.empty) # rest"
      by (cases a) (simp_all add: ms_lit)
    from ne_a have adv: "p < p + length a" by simp
    from drop_more [OF here, of "length a"] ne_a
    have "drop (p + length a) text = drop (length a - 1) xs"
      by (cases a) simp_all
    from "2.IH"(1) [OF _ ne_a ne_b const this] True ne_a
    have "rsub text (Alt (lit a) (lit b)) items (p + length a) (drop (length a - 1) xs)
        = replace_either a b r (drop (length a - 1) xs)" by simp
    with rsub_match [OF hd adv] True ne_a const show ?thesis by simp
  next
    case False
    note not_a = this
    show ?thesis
    proof (cases "prefix b (x # xs)")
      case True
      with not_a ne_b have hd: "ms (Alt (lit a) (lit b)) (p, x # xs, Map.empty)
          = (p + length b, drop (length b - 1) xs, Map.empty) # []"
        by (cases b) (simp_all add: ms_lit)
      from ne_b have adv: "p < p + length b" by simp
      from drop_more [OF here, of "length b"] ne_b
      have "drop (p + length b) text = drop (length b - 1) xs"
        by (cases b) simp_all
      from "2.IH"(2) [OF _ _ ne_a ne_b const this] True not_a ne_b
      have "rsub text (Alt (lit a) (lit b)) items (p + length b) (drop (length b - 1) xs)
          = replace_either a b r (drop (length b - 1) xs)" by simp
      with rsub_match [OF hd adv] True not_a ne_b const show ?thesis by simp
    next
      case False
      with not_a have no: "ms (Alt (lit a) (lit b)) (p, x # xs, Map.empty) = []"
        by (simp add: ms_lit)
      from "2.IH"(3) [OF _ _ ne_a ne_b const next_pos] False not_a
      have "rsub text (Alt (lit a) (lit b)) items (Suc p) xs = replace_either a b r xs" by simp
      with rsub_skip [OF no here] False not_a show ?thesis by simp
    qed
  qed
qed

subsection \<open>The name rules\<close>

definition plain_name :: "string \<Rightarrow> bool" where
  "plain_name s = (s \<noteq> [] \<and> list_all (\<lambda>c. is_ascii_letter c \<or> c = CHR '' '') s)"

definition mis_plain :: "string option list \<Rightarrow> bool" where
  "mis_plain mis = list_all (\<lambda>m. case m of None \<Rightarrow> True | Some w \<Rightarrow> plain_name w) mis"

definition table_plain :: "(string \<times> string option list) list \<Rightarrow> bool" where
  "table_plain tbl = list_all (\<lambda>(c, mis). plain_name c \<and> mis_plain mis) tbl"

fun mispellings_spec :: "string \<Rightarrow> string option list \<Rightarrow> string \<Rightarrow> string" where
  "mispellings_spec c [] t = t"
| "mispellings_spec c (None # mis) t = mispellings_spec c mis t"
| "mispellings_spec c (Some m # mis) t =
     mispellings_spec c mis
       (replace_either m (lower m) c (replace_all (upper m) (upper c) t))"

fun names_spec :: "(string \<times> string option list) list \<Rightarrow> string \<Rightarrow> string" where
  "names_spec [] t = t"
| "names_spec ((c, mis) # rest) t =
     names_spec rest (mispellings_spec c mis (replace_all (lower c) c t))"

lemma letters_no_meta:
  "CHR ''|'' \<notin> set ''abcdefghijklmnopqrstuvwxyzABCDEFGHIJKLMNOPQRSTUVWXYZ''"
  "bslash \<notin> set ''abcdefghijklmnopqrstuvwxyzABCDEFGHIJKLMNOPQRSTUVWXYZ''"
  "CHR ''|'' \<notin> set ''abcdefghijklmnopqrstuvwxyz''"
  "bslash \<notin> set ''abcdefghijklmnopqrstuvwxyz''"
  "CHR ''|'' \<notin> set ''ABCDEFGHIJKLMNOPQRSTUVWXYZ''"
  "bslash \<notin> set ''ABCDEFGHIJKLMNOPQRSTUVWXYZ''"
  by (simp_all add: bslash_def)

lemma lower_char_range: "lower_char c = c \<or> lower_char c \<in> set ''abcdefghijklmnopqrstuvwxyz''"
proof (cases "map_of (zip ''ABCDEFGHIJKLMNOPQRSTUVWXYZ'' ''abcdefghijklmnopqrstuvwxyz'') c")
  case None
  then show ?thesis unfolding lower_char_def by (simp only: option.case simp_thms)
next
  case (Some d)
  then have "d \<in> set ''abcdefghijklmnopqrstuvwxyz''"
    by (blast dest: map_of_SomeD set_zip_rightD)
  with Some show ?thesis unfolding lower_char_def by (simp only: option.case simp_thms)
qed

lemma upper_char_range: "upper_char c = c \<or> upper_char c \<in> set ''ABCDEFGHIJKLMNOPQRSTUVWXYZ''"
proof (cases "map_of (zip ''abcdefghijklmnopqrstuvwxyz'' ''ABCDEFGHIJKLMNOPQRSTUVWXYZ'') c")
  case None
  then show ?thesis unfolding upper_char_def by (simp only: option.case simp_thms)
next
  case (Some d)
  then have "d \<in> set ''ABCDEFGHIJKLMNOPQRSTUVWXYZ''"
    by (blast dest: map_of_SomeD set_zip_rightD)
  with Some show ?thesis unfolding upper_char_def by (simp only: option.case simp_thms)
qed

lemma plain_char:
  assumes "is_ascii_letter c \<or> c = CHR '' ''"
  shows "c \<noteq> CHR ''|''" "c \<noteq> bslash" "lower_char c \<noteq> CHR ''|''" "lower_char c \<noteq> bslash"
    "upper_char c \<noteq> CHR ''|''" "upper_char c \<noteq> bslash"
proof -
  from assms letters_no_meta(1,2) show c: "c \<noteq> CHR ''|''" "c \<noteq> bslash"
    unfolding is_ascii_letter_def by (auto simp only: bslash_def char.inject)
  from lower_char_range [of c] c letters_no_meta(3,4)
  show "lower_char c \<noteq> CHR ''|''" "lower_char c \<noteq> bslash" by metis+
  from upper_char_range [of c] c letters_no_meta(5,6)
  show "upper_char c \<noteq> CHR ''|''" "upper_char c \<noteq> bslash" by metis+
qed

lemma plain_name_facts:
  assumes "plain_name s"
  shows "s \<noteq> []" "CHR ''|'' \<notin> set s" "bslash \<notin> set s"
    "lower s \<noteq> []" "CHR ''|'' \<notin> set (lower s)" "bslash \<notin> set (lower s)"
    "upper s \<noteq> []" "CHR ''|'' \<notin> set (upper s)" "bslash \<notin> set (upper s)"
  using assms plain_char
  by (fastforce simp: plain_name_def list_all_iff lower_def upper_def)+

lemma split_bar_plain: "CHR ''|'' \<notin> set s \<Longrightarrow> split_bar s = [s]"
  by (induction s) auto

lemma split_bar_two:
  "CHR ''|'' \<notin> set a \<Longrightarrow> CHR ''|'' \<notin> set b \<Longrightarrow> split_bar (a @ CHR ''|'' # b) = [a, b]"
  by (induction a) (auto simp: split_bar_plain)

lemma re_sub_name:
  assumes "w \<noteq> []" "CHR ''|'' \<notin> set w" "bslash \<notin> set r"
  shows "re_sub (re_compile_names w) r text 0 = Inr (replace_all w r text)"
proof -
  from assms have "re_compile_names w = \<lparr>p_re = lit w, p_groups = 0, p_names = []\<rparr>"
    by (simp add: re_compile_names_def split_bar_plain)
  moreover from assms(3) have "parse_template (re_compile_names w) r = Inr (map TChar r)"
    by (rule parse_template_plain)
  ultimately show ?thesis using assms(1)
    by (simp add: re_sub_rsub rsub_lit)
qed

lemma re_sub_name_either:
  assumes "a \<noteq> []" "b \<noteq> []" "CHR ''|'' \<notin> set a" "CHR ''|'' \<notin> set b" "bslash \<notin> set r"
  shows "re_sub (re_compile_names (a @ CHR ''|'' # b)) r text 0 = Inr (replace_either a b r text)"
proof -
  from assms have "re_compile_names (a @ CHR ''|'' # b)
      = \<lparr>p_re = Alt (lit a) (lit b), p_groups = 0, p_names = []\<rparr>"
    by (simp add: re_compile_names_def split_bar_two)
  moreover from assms(5) have "parse_template (re_compile_names (a @ CHR ''|'' # b)) r = Inr (map TChar r)"
    by (rule parse_template_plain)
  ultimately show ?thesis using assms(1,2)
    by (simp add: re_sub_rsub rsub_alt_lit)
qed

lemma fix_mispellings_spec:
  "plain_name c \<Longrightarrow> mis_plain mis \<Longrightarrow> fix_mispellings c mis t = Inr (mispellings_spec c mis t)"
proof (induction c mis t rule: mispellings_spec.induct)
  case (1 c t)
  show ?case by simp
next
  case (2 c mis t)
  then show ?case by (simp add: mis_plain_def)
next
  case (3 c m mis t)
  then have m: "plain_name m" and rest: "mis_plain mis" by (simp_all add: mis_plain_def)
  note c = "3.prems"(1)
  have 1: "re_sub (re_compile_names (upper m)) (upper c) t 0
      = Inr (replace_all (upper m) (upper c) t)"
    using plain_name_facts [OF m] plain_name_facts [OF c] by (intro re_sub_name)
  have 2: "re_sub (re_compile_names (m @ CHR ''|'' # lower m)) c t' 0
      = Inr (replace_either m (lower m) c t')" for t'
    using plain_name_facts [OF m] plain_name_facts [OF c] by (intro re_sub_name_either)
  from "3.IH" [OF c rest] show ?case by (simp add: 1 2)
qed

lemma fix_names_spec:
  "table_plain tbl \<Longrightarrow> fix_names tbl t = Inr (names_spec tbl t)"
proof (induction tbl t rule: names_spec.induct)
  case (1 t)
  show ?case by simp
next
  case (2 c mis rest t)
  then have c: "plain_name c" and mis: "mis_plain mis" and rest: "table_plain rest"
    by (simp_all add: table_plain_def)
  have 1: "re_sub (re_compile_names (lower c)) c t 0 = Inr (replace_all (lower c) c t)"
    using plain_name_facts [OF c] by (intro re_sub_name)
  from "2.IH" [OF rest] show ?case by (simp add: 1 fix_mispellings_spec [OF c mis])
qed

lemma names_to_fix_plain: "table_plain names_to_fix"
  by (simp add: table_plain_def mis_plain_def names_to_fix_def plain_name_def is_ascii_letter_def)

lemma fix_name_spellings_spec: "fix_name_spellings t = Inr (names_spec names_to_fix t)"
  by (simp add: fix_name_spellings_def fix_names_spec names_to_fix_plain)

subsection \<open>Text without markup\<close>

definition no_markup :: "string \<Rightarrow> bool" where
  "no_markup text =
     list_all (\<lambda>pat. re_search pat text = None) (to_replace_simple @ to_remove_simple)"

definition templates_parse :: "(pattern \<times> string) list \<Rightarrow> bool" where
  "templates_parse pairs = list_all (\<lambda>(pat, repl). \<exists>items. parse_template pat repl = Inr items) pairs"

lemma sub_each_no_match:
  "templates_parse pairs \<Longrightarrow> list_all (\<lambda>(pat, repl). re_search pat text = None) pairs \<Longrightarrow>
   sub_each pairs text = Inr text"
proof (induction pairs)
  case Nil
  show ?case by simp
next
  case (Cons pair pairs)
  obtain pat repl where pair: "pair = (pat, repl)" by (cases pair)
  from Cons.prems pair obtain items where "parse_template pat repl = Inr items"
    and "re_search pat text = None" by (auto simp: templates_parse_def)
  then have "re_sub pat repl text 0 = Inr text" by (simp add: re_sub_no_match)
  with Cons pair show ?case by (simp add: templates_parse_def)
qed

lemma sub_each_returns:
  "templates_parse pairs \<Longrightarrow> \<exists>t. sub_each pairs t0 = Inr t"
proof (induction pairs arbitrary: t0)
  case Nil
  show ?case by simp
next
  case (Cons pair pairs)
  obtain pat repl where pair: "pair = (pat, repl)" by (cases pair)
  from Cons.prems pair obtain items where "parse_template pat repl = Inr items"
    by (auto simp: templates_parse_def)
  then obtain t where "re_sub pat repl t0 0 = Inr t" by (simp add: re_sub_def)
  with Cons pair show ?case by (simp add: templates_parse_def)
qed

lemma simple_templates_parse:
  "templates_parse (zip to_replace_simple replace_with_simple)"
  "templates_parse (map (\<lambda>to_remove. (to_remove, [])) to_remove_simple)"
  by (simp_all add: templates_parse_def to_replace_simple_def replace_with_simple_def
      to_remove_simple_def wrap_pattern_def del_pattern_def underline_pattern_def plain_pattern_def
      parse_template.simps(2) tcons_def bslash_def is_identifier_def is_ascii_letter_def
      escape_char_def is_digit_def)

lemma convert_simple_returns: "\<exists>t. convert_simple text = Inr t"
proof -
  from sub_each_returns [OF simple_templates_parse(1)]
  obtain t where "sub_each (zip to_replace_simple replace_with_simple) text = Inr t" by blast
  with sub_each_returns [OF simple_templates_parse(2), of t] show ?thesis
    by (simp add: convert_simple_def)
qed

lemma convert_simple_no_markup:
  assumes "no_markup text"
  shows "convert_simple text = Inr text"
proof -
  from assms have 1: "list_all (\<lambda>(pat, repl). re_search pat text = None)
      (zip to_replace_simple replace_with_simple)"
    by (auto simp: no_markup_def list_all_iff dest: set_zip_leftD)
  from assms have 2: "list_all (\<lambda>(pat, repl). re_search pat text = None)
      (map (\<lambda>to_remove. (to_remove, [])) to_remove_simple)"
    by (auto simp: no_markup_def list_all_iff)
  from sub_each_no_match [OF simple_templates_parse(1) 1]
    sub_each_no_match [OF simple_templates_parse(2) 2]
  show ?thesis by (simp add: convert_simple_def)
qed

subsection \<open>The first match\<close>

definition first :: "'a list \<Rightarrow> 'a option" where
  "first xs = (case xs of [] \<Rightarrow> None | x # _ \<Rightarrow> Some x)"

lemma first_simps [simp]:
  "first [] = None"
  "first (x # xs) = Some x"
  by (simp_all add: first_def)

lemma first_append: "first (xs @ ys) = (case first xs of None \<Rightarrow> first ys | Some x \<Rightarrow> Some x)"
  by (cases xs) simp_all

lemma first_None [simp]: "(first xs = None) = (xs = [])"
  by (cases xs) simp_all

lemma first_map: "first (map f xs) = map_option f (first xs)"
  by (cases xs) simp_all

lemma first_SomeD: "first xs = Some x \<Longrightarrow> \<exists>rest. xs = x # rest"
  by (cases xs) simp_all

subsection \<open>Matching a sequence, by the shape of its head\<close>

lemma concat_map_concat_map:
  "concat (map f (concat (map h xs))) = concat (map (\<lambda>x. concat (map f (h x))) xs)"
  by (induction xs) simp_all

lemma ms_seq_assoc: "ms (Seq (Seq a b) k) st = ms (Seq a (Seq b k)) st"
proof -
  have "ms (Seq b k) = (\<lambda>x. concat (map (ms k) (ms b x)))" by (rule ext) simp
  then show ?thesis by (simp add: concat_map_concat_map)
qed

lemma ms_seq_eps: "ms (Seq Eps k) st = ms k st"
  by simp

lemma ms_seq_alt: "ms (Seq (Alt a b) k) st = ms (Seq a k) st @ ms (Seq b k) st"
  by simp

lemma ms_seq_atom:
  "ms (Seq (Atom c) k) (p, s, g) =
     (case s of [] \<Rightarrow> [] | x # xs \<Rightarrow> if cmatch c x then ms k (Suc p, xs, g) else [])"
  by (simp split: list.splits)

lemma ms_seq_group:
  "ms (Seq (Group n r) k) (p, s, g) =
     concat (map (\<lambda>(p', s', g'). ms k (p', s', g'(n \<mapsto> (p, p')))) (ms r (p, s, g)))"
  by (simp add: comp_def case_prod_unfold)

lemma ms_seq_lit:
  "ms (Seq (lit w) r) (p, s, g) =
     (if prefix w s then ms r (p + length w, drop (length w) s, g) else [])"
  by (simp add: ms_lit)

declare ms.simps(3) [simp del]

lemma ms_lazy_atom:
  "ms (LazyStar (Atom c)) (p, s, g) =
     (p, s, g) # (case s of [] \<Rightarrow> []
                 | x # xs \<Rightarrow> if cmatch c x then ms (LazyStar (Atom c)) (Suc p, xs, g) else [])"
  by (subst ms.simps(6)) (simp add: shorter_def split: list.splits)

lemma ms_star_atom:
  "ms (Star (Atom c)) (p, s, g) =
     (case s of [] \<Rightarrow> []
      | x # xs \<Rightarrow> if cmatch c x then ms (Star (Atom c)) (Suc p, xs, g) else []) @ [(p, s, g)]"
  by (subst ms.simps(5)) (simp add: shorter_def split: list.splits)

lemma ms_seq_lazy_atom:
  "ms (Seq (LazyStar (Atom c)) k) (p, s, g) =
     ms k (p, s, g) @
     (case s of [] \<Rightarrow> []
      | x # xs \<Rightarrow> if cmatch c x then ms (Seq (LazyStar (Atom c)) k) (Suc p, xs, g) else [])"
  by (simp add: ms.simps(3) ms_lazy_atom [of c p s g] split: list.splits)

lemma ms_seq_star_atom:
  "ms (Seq (Star (Atom c)) k) (p, s, g) =
     (case s of [] \<Rightarrow> []
      | x # xs \<Rightarrow> if cmatch c x then ms (Seq (Star (Atom c)) k) (Suc p, xs, g) else []) @
     ms k (p, s, g)"
  by (simp add: ms.simps(3) ms_star_atom [of c p s g] split: list.splits)

text \<open>A greedy run of one character, followed by something that cannot start with it.\<close>

lemma ms_seq_star_lit:
  assumes "\<And>p xs g. ms k (p, c # xs, g) = []"
  shows "ms (Seq (Star (Atom (Lit c))) k) (p, s, g) =
     ms k (p + length (takeWhile (\<lambda>x. x = c) s), dropWhile (\<lambda>x. x = c) s, g)"
proof (induction s arbitrary: p)
  case Nil
  show ?case by (subst ms_seq_star_atom) simp
next
  case (Cons x xs)
  show ?case
  proof (cases "x = c")
    case True
    with Cons [of "Suc p"] assms show ?thesis by (subst ms_seq_star_atom) simp
  next
    case False
    then show ?thesis by (subst ms_seq_star_atom) simp
  qed
qed

subsection \<open>Replacing what a recognizer finds\<close>

function replace_by :: "(string \<Rightarrow> nat option) \<Rightarrow> string \<Rightarrow> string \<Rightarrow> string" where
  "replace_by len rep [] = []"
| "replace_by len rep (x # xs) =
     (case len (x # xs) of
        None \<Rightarrow> x # replace_by len rep xs
      | Some n \<Rightarrow> rep @ replace_by len rep (drop (n - 1) xs))"
  by pat_completeness auto
termination
  by (relation "measure (\<lambda>(len, rep, s). length s)") auto

lemma rsub_by_len:
  assumes none: "\<And>p s. len s = None \<Longrightarrow> ms r (p, s, Map.empty) = []"
    and some: "\<And>p s n. len s = Some n \<Longrightarrow>
        0 < n \<and> (\<exists>g. first (ms r (p, s, Map.empty)) = Some (p + n, drop n s, g))"
    and empty: "len [] = None"
    and const: "\<And>m. expand_template items m = rep"
  shows "drop p text = s \<Longrightarrow> rsub text r items p s = replace_by len rep s"
proof (induction "length s" arbitrary: s p rule: less_induct)
  case less
  show ?case
  proof (cases s)
    case Nil
    from none [OF empty] have "ms r (p, [], Map.empty) = []" .
    from rsub_Nil [OF this] less.prems Nil show ?thesis by simp
  next
    case (Cons x xs)
    from less.prems Cons have here: "drop p text = x # xs" by simp
    show ?thesis
    proof (cases "len (x # xs)")
      case None
      from none [OF None] have no: "ms r (p, x # xs, Map.empty) = []" .
      from here have "drop (Suc p) text = xs" by (metis drop_Suc tl_drop list.sel(3))
      with less.hyps [of xs "Suc p"] Cons have "rsub text r items (Suc p) xs = replace_by len rep xs"
        by simp
      with rsub_skip [OF no here] None Cons show ?thesis by simp
    next
      case (Some n)
      from some [OF Some] obtain g where n: "0 < n"
        and "first (ms r (p, x # xs, Map.empty)) = Some (p + n, drop n (x # xs), g)" by blast
      then obtain rest where hd: "ms r (p, x # xs, Map.empty) = (p + n, drop n (x # xs), g) # rest"
        by (blast dest: first_SomeD)
      from n have adv: "p < p + n" by simp
      from n have dn: "drop n (x # xs) = drop (n - 1) xs" by (cases n) simp_all
      from drop_more [OF here, of n] dn have "drop (p + n) text = drop (n - 1) xs" by simp
      with less.hyps [of "drop (n - 1) xs" "p + n"] Cons
      have "rsub text r items (p + n) (drop (n - 1) xs) = replace_by len rep (drop (n - 1) xs)"
        by simp
      with rsub_match [OF hd adv] Some Cons dn const show ?thesis by simp
    qed
  qed
qed

subsection \<open>The horizontal rule\<close>

fun until :: "cclass \<Rightarrow> char \<Rightarrow> string \<Rightarrow> nat option" where
  \<comment> \<open>the number of characters of class \<open>c\<close> before the first \<open>d\<close>\<close>
  "until c d [] = None"
| "until c d (x # xs) =
     (if x = d then Some 0 else if cmatch c x then map_option Suc (until c d xs) else None)"

definition hr_len :: "string \<Rightarrow> nat option" where
  \<comment> \<open>the length of \<open><hr>\<close>, or of \<open><hr dir\<close> and what follows on the line up to
      the first \<open>>\<close>, at the head of the text\<close>
  "hr_len s =
     (if prefix ''<hr>'' s then Some 4
      else if prefix ''<hr dir'' s then map_option (\<lambda>k. k + 8) (until Dot CHR ''>'' (drop 7 s))
      else None)"

lemma first_lazy_until:
  "first (concat (map (\<lambda>(p', s', g'). ms (Seq (lit [d]) Eps) (p', s', h p' g'))
                      (ms (LazyStar (Atom c)) (q, u, g))))
   = map_option (\<lambda>k. (Suc (q + k), drop (Suc k) u, h (q + k) g)) (until c d u)"
proof (induction u arbitrary: q)
  case Nil
  show ?case by (subst ms_lazy_atom) (simp add: ms_seq_lit)
next
  case (Cons x xs)
  show ?case
  proof (cases "x = d")
    case True
    then show ?thesis by (subst ms_lazy_atom) (simp add: ms_seq_lit)
  next
    case False
    with Cons [of "Suc q"] show ?thesis
      by (subst ms_lazy_atom) (simp add: ms_seq_lit option.map_comp comp_def)
  qed
qed

lemma ms_hr_plain:
  "prefix ''<hr>'' s \<Longrightarrow> \<exists>g'. first (ms (p_re hr_pattern) (p, s, g)) = Some (p + 4, drop 4 s, g')"
  by (auto simp: hr_pattern_def prefix_def ms_seq_lit ms_lit Opt_def ms_seq_alt ms_seq_group
      ms_seq_eps first_append)

lemma ms_hr_dir:
  assumes "prefix ''<hr dir'' s"
  shows "first (ms (p_re hr_pattern) (p, s, g)) =
     map_option (\<lambda>k. (p + (k + 8), drop (k + 8) s, g(1 \<mapsto> (p + 3, p + 7 + k))))
       (until Dot CHR ''>'' (drop 7 s))"
proof -
  from assms obtain u where s: "s = ''<hr dir'' @ u" by (auto simp: prefix_def)
  have "first (ms (p_re hr_pattern) (p, s, g)) =
      first (concat (map (\<lambda>(p', s', g'). ms (Seq (lit ''>'') Eps) (p', s', g'(1 \<mapsto> (p + 3, p'))))
                      (ms (LazyStar (Atom Dot)) (p + 7, u, g))))"
    by (simp add: s hr_pattern_def ms_seq_lit ms_lit Opt_def ms_seq_alt ms_seq_group ms_seq_eps
        ms.simps(3) [of "lit '' dir''"] eval_nat_numeral)
  also have "\<dots> = map_option (\<lambda>k. (Suc (p + 7 + k), drop (Suc k) u, g(1 \<mapsto> (p + 3, p + 7 + k))))
       (until Dot CHR ''>'' u)"
    by (rule first_lazy_until [where h = "\<lambda>p' g'. g'(1 \<mapsto> (p + 3, p'))"])
  finally show ?thesis by (simp add: s eval_nat_numeral ac_simps)
qed

lemma ms_hr_none:
  assumes "hr_len s = None"
  shows "ms (p_re hr_pattern) (p, s, g) = []"
proof (cases "prefix ''<hr dir'' s")
  case True
  with assms have "\<not> prefix ''<hr>'' s" by (auto simp: hr_len_def split: if_splits)
  with True assms ms_hr_dir [OF True, of p g] show ?thesis
    by (simp add: hr_len_def)
next
  case False
  with assms have "\<not> prefix ''<hr>'' s" by (auto simp: hr_len_def split: if_splits)
  with False show ?thesis
    by (auto simp: hr_pattern_def prefix_def ms_seq_lit ms_lit Opt_def ms_seq_alt ms_seq_group
        ms_seq_eps ms.simps(3) [of "lit '' dir''"])
qed

lemma ms_hr_some:
  assumes "hr_len s = Some n"
  shows "0 < n \<and> (\<exists>g'. first (ms (p_re hr_pattern) (p, s, g)) = Some (p + n, drop n s, g'))"
proof (cases "prefix ''<hr>'' s")
  case True
  with assms ms_hr_plain [OF True, of p g] show ?thesis by (simp add: hr_len_def)
next
  case False
  with assms have dir: "prefix ''<hr dir'' s" by (auto simp: hr_len_def split: if_splits)
  with False assms ms_hr_dir [OF dir, of p g] show ?thesis
    by (auto simp: hr_len_def)
qed

lemma hr_template:
  "parse_template hr_pattern (bslash # ''n---'') = Inr (map TChar (newline # ''---''))"
  by (simp add: parse_template.simps(2) tcons_def bslash_def newline_def escape_char_def
      is_digit_def)

definition hr_rule :: "string \<Rightarrow> string" where
  "hr_rule text = replace_by hr_len (newline # ''---'') text"

lemma re_sub_hr: "re_sub hr_pattern (bslash # ''n---'') text 0 = Inr (hr_rule text)"
proof -
  have "rsub text (p_re hr_pattern) (map TChar (newline # ''---'')) 0 text
      = replace_by hr_len (newline # ''---'') text"
    by (rule rsub_by_len [OF ms_hr_none ms_hr_some])
       (simp_all add: hr_len_def expand_template_def expand_item_def)
  then show ?thesis by (simp add: re_sub_rsub [OF hr_template] hr_rule_def)
qed

subsection \<open>Closing tags\<close>

definition close_len :: "string \<Rightarrow> string \<Rightarrow> nat option" where
  \<comment> \<open>the length of a closing tag \<open><\\*/+name>\<close> at the head of the text\<close>
  "close_len name s =
     (case s of
        [] \<Rightarrow> None
      | x # t \<Rightarrow>
          let u = dropWhile (\<lambda>c. c = bslash) t;
              v = dropWhile (\<lambda>c. c = CHR ''/'') u
          in if x = CHR ''<'' \<and> u \<noteq> v \<and> prefix (name @ ''>'') v
             then Some (length s - length v + length name + 1)
             else None)"

lemma prefix_append_drop: "prefix (a @ b) v = (prefix a v \<and> prefix b (drop (length a) v))"
  by (auto simp: prefix_def)

lemma length_dropWhile_eq:
  "length (takeWhile P xs) + length (dropWhile P xs) = length xs"
  by (metis length_append takeWhile_dropWhile_id)

lemma ms_seq_plus_atom:
  "ms (Seq (Plus (Atom c)) k) (p, s, g) =
     (case s of [] \<Rightarrow> []
      | x # xs \<Rightarrow> if cmatch c x then ms (Seq (Star (Atom c)) k) (Suc p, xs, g) else [])"
  by (simp add: Plus_def ms_seq_assoc ms_seq_atom)

lemma ms_closing_tag:
  assumes "name \<noteq> []" and "hd name \<noteq> CHR ''/''"
  shows "ms (closing_tag name) (p, s, g) =
     (case close_len name s of None \<Rightarrow> [] | Some n \<Rightarrow> [(p + n, drop n s, g)])"
proof -
  let ?k2 = "Seq (lit name) (Seq (lit ''>'') Eps)"
  let ?k1 = "Seq (Plus (Atom (Lit CHR ''/''))) ?k2"
  from assms have k2: "ms ?k2 (p, CHR ''/'' # xs, g) = []" for p xs g
    by (cases name) (simp_all add: ms_seq_lit)
  have k1: "ms ?k1 (p, bslash # xs, g) = []" for p xs g
    by (simp add: ms_seq_plus_atom bslash_def)
  have k2_eq: "ms ?k2 (q, v, g) =
      (if prefix (name @ ''>'') v then [(q + length name + 1, drop (length name + 1) v, g)] else [])"
    for q v
    by (simp add: ms_seq_lit ms_seq_eps prefix_append_drop add.commute)
  have expand: "ms (closing_tag name) (p, s0, g) =
      (if prefix ''<'' s0 then ms (Seq (Star (Atom (Lit bslash))) ?k1) (p + 1, drop 1 s0, g) else [])"
    for s0
    by (simp add: closing_tag_def ms_seq_lit)
  show ?thesis
  proof (cases s)
    case Nil
    then show ?thesis by (simp add: expand close_len_def)
  next
    case (Cons x t)
    let ?u = "dropWhile (\<lambda>c. c = bslash) t"
    let ?v = "dropWhile (\<lambda>c. c = CHR ''/'') ?u"
    show ?thesis
    proof (cases "x = CHR ''<''")
      case False
      with Cons show ?thesis by (simp add: expand close_len_def Let_def)
    next
      case True
      have 1: "ms (closing_tag name) (p, s, g) =
          ms ?k1 (p + 1 + length (takeWhile (\<lambda>c. c = bslash) t), ?u, g)"
        using Cons True by (simp add: expand ms_seq_star_lit [where k = ?k1, OF k1])
      show ?thesis
      proof (cases ?u)
        case Nil
        then have vu: "?v = ?u" by (simp only: dropWhile.simps)
        from Cons True vu have "close_len name s = None" by (simp add: close_len_def Let_def)
        moreover from 1 Nil have "ms (closing_tag name) (p, s, g) = []"
          by (simp only: ms_seq_plus_atom list.case)
        ultimately show ?thesis by simp
      next
        case u: (Cons y u')
        show ?thesis
        proof (cases "y = CHR ''/''")
          case False
          with u have vu: "?v = ?u" by (simp only: dropWhile.simps if_False)
          from Cons True vu have "close_len name s = None" by (simp add: close_len_def Let_def)
          moreover from 1 u False have "ms (closing_tag name) (p, s, g) = []"
            by (simp only: ms_seq_plus_atom list.case cmatch.simps if_False)
          ultimately show ?thesis by simp
        next
          case slash: True
          from u slash have v: "?v = dropWhile (\<lambda>c. c = CHR ''/'') u'" by simp
          have le: "length (dropWhile (\<lambda>c. c = CHR ''/'') u') \<le> length u'"
            by (rule length_dropWhile_le)
          have lv: "length ?v = length (dropWhile (\<lambda>c. c = CHR ''/'') u')"
            by (simp only: v)
          have lu: "length ?u = Suc (length u')" by (simp only: u length_Cons)
          from le lv lu have "length ?v < length ?u" by linarith
          then have neq: "?u \<noteq> ?v" by (metis less_irrefl)
          note la = length_dropWhile_eq [of "\<lambda>c. c = bslash" t]
          note lb = length_dropWhile_eq [of "\<lambda>c. c = CHR ''/''" u']
          from la lb lv lu
          have len: "length t = length (takeWhile (\<lambda>c. c = bslash) t)
              + Suc (length (takeWhile (\<lambda>c. c = CHR ''/'') u') + length ?v)"
            by linarith
          have 2: "ms (closing_tag name) (p, s, g) =
              ms ?k2 (p + 1 + length (takeWhile (\<lambda>c. c = bslash) t) + 1
                       + length (takeWhile (\<lambda>c. c = CHR ''/'') u'), ?v, g)"
            using u slash by (simp add: 1 ms_seq_plus_atom ms_seq_star_lit [where k = ?k2, OF k2] v)
          define pre where "pre = x # takeWhile (\<lambda>c. c = bslash) t @ takeWhile (\<lambda>c. c = CHR ''/'') ?u"
          have spre: "s = pre @ ?v" unfolding pre_def using Cons by simp
          then have "length s = length pre + length ?v" by (metis length_append)
          then have lpre: "length s - length ?v = length pre" by linarith
          from spre have "drop (length pre) s = ?v" by (metis append_eq_conv_conj)
          with lpre have dropv: "drop (length s - length ?v) s = ?v" by (simp only:)
          from 2 have 3: "ms (closing_tag name) (p, s, g) =
              (if prefix (name @ ''>'') ?v
               then [(p + 1 + length (takeWhile (\<lambda>c. c = bslash) t) + 1
                       + length (takeWhile (\<lambda>c. c = CHR ''/'') u') + length name + 1,
                      drop (length name + 1) ?v, g)]
               else [])"
            by (simp only: k2_eq)
          show ?thesis
          proof (cases "prefix (name @ ''>'') ?v")
            case False
            from Cons True neq False have "close_len name s = None"
              by (simp add: close_len_def Let_def)
            moreover from 3 False have "ms (closing_tag name) (p, s, g) = []"
              by (simp only: if_False)
            ultimately show ?thesis by simp
          next
            case pre: True
            have n: "close_len name s = Some (length s - length ?v + length name + 1)"
              using Cons True neq pre by (simp add: close_len_def Let_def)
            have pos: "p + 1 + length (takeWhile (\<lambda>c. c = bslash) t) + 1
                       + length (takeWhile (\<lambda>c. c = CHR ''/'') u') = p + (length s - length ?v)"
              using Cons len lv by simp
            have "drop (length name + 1) (drop (length s - length ?v) s)
                = drop (length name + 1 + (length s - length ?v)) s" by (rule drop_drop)
            moreover have "length name + 1 + (length s - length ?v)
                = length s - length ?v + length name + 1" by linarith
            ultimately have dr: "drop (length s - length ?v + length name + 1) s
                = drop (length name + 1) ?v"
              using dropv by (simp only:)
            from 3 pre have "ms (closing_tag name) (p, s, g) =
                [(p + 1 + length (takeWhile (\<lambda>c. c = bslash) t) + 1
                       + length (takeWhile (\<lambda>c. c = CHR ''/'') u') + length name + 1,
                      drop (length name + 1) ?v, g)]"
              by (simp only: if_True)
            also have "\<dots> = [(p + (length s - length ?v + length name + 1),
                drop (length s - length ?v + length name + 1) s, g)]"
              using pos dr by simp
            finally show ?thesis by (simp only: n option.case)
          qed
        qed
      qed
    qed
  qed
qed

definition tag_patterns :: "pattern list" where
  \<comment> \<open>the patterns of \<open>convert_simple\<close> that recognize a tag: all but the entity
      pattern, which is the last of \<open>to_replace_simple\<close>\<close>
  "tag_patterns = take 7 to_replace_simple @ to_remove_simple"

definition no_tags :: "string \<Rightarrow> bool" where
  "no_tags text = list_all (\<lambda>pat. re_search pat text = None) tag_patterns"

definition no_entity :: "string \<Rightarrow> bool" where
  "no_entity text = (re_search (plain_pattern ''&nbsp;'') text = None)"

lemma no_markup_split: "no_markup text = (no_tags text \<and> no_entity text)"
  by (auto simp: no_markup_def no_tags_def no_entity_def tag_patterns_def to_replace_simple_def)

subsection \<open>Blockquotes\<close>

text \<open>A lazy run followed by something that may fail.\<close>

fun find_lazy :: "cclass \<Rightarrow> (string \<Rightarrow> 'a option) \<Rightarrow> string \<Rightarrow> (nat \<times> 'a) option" where
  \<comment> \<open>the least number of characters of class \<open>c\<close> after which \<open>len\<close> recognizes
      something, and what it recognizes there\<close>
  "find_lazy c len [] = map_option (Pair 0) (len [])"
| "find_lazy c len (x # xs) =
     (case len (x # xs) of
        Some l \<Rightarrow> Some (0, l)
      | None \<Rightarrow>
          if cmatch c x then map_option (\<lambda>(j, l). (Suc j, l)) (find_lazy c len xs) else None)"

lemma first_lazy_gen:
  assumes "\<And>p s. first (F (p, s, g)) = map_option (R p s) (len s)"
  shows "first (concat (map F (ms (LazyStar (Atom c)) (q, u, g)))) =
     map_option (\<lambda>(j, l). R (q + j) (drop j u) l) (find_lazy c len u)"
proof (induction u arbitrary: q)
  case Nil
  show ?case by (subst ms_lazy_atom) (simp add: assms option.map_comp comp_def)
next
  case (Cons x xs)
  show ?case
  proof (cases "len (x # xs)")
    case (Some l)
    then show ?thesis
      by (subst ms_lazy_atom) (simp add: assms first_append)
  next
    case None
    with Cons [of "Suc q"] show ?thesis
      by (subst ms_lazy_atom)
         (simp add: assms first_append option.map_comp comp_def case_prod_unfold)
  qed
qed

lemma find_lazy_bounds:
  "find_lazy c len u = Some (j, l) \<Longrightarrow> j \<le> length u \<and> len (drop j u) = Some l"
proof (induction u arbitrary: j)
  case Nil
  then show ?case by auto
next
  case (Cons x xs)
  show ?case
  proof (cases "len (x # xs)")
    case (Some l')
    with Cons.prems show ?thesis by simp
  next
    case None
    with Cons.prems obtain j' where "find_lazy c len xs = Some (j', l)" "j = Suc j'"
      by (auto split: if_splits)
    with Cons.IH [of j'] show ?thesis by simp
  qed
qed

text \<open>The lines of a quotation.\<close>

fun prefix_lines :: "string \<Rightarrow> string" where
  \<comment> \<open>\<open>> \<close> is put after every line break that is followed by a later line break:
      a line gets the prefix when it has a line break before it and one after it\<close>
  "prefix_lines [] = []"
| "prefix_lines (c # cs) =
     (if c = newline \<and> newline \<in> set cs then newline # ''> '' @ prefix_lines cs
      else c # prefix_lines cs)"

lemma prefix_lines_append:
  "newline \<notin> set a \<Longrightarrow> prefix_lines (a @ b) = a @ prefix_lines b"
  by (induction a) auto

definition nl_here :: "string \<Rightarrow> nat option" where
  "nl_here s = (if prefix [newline] s then Some 0 else None)"

lemma find_lazy_newline:
  "find_lazy DotAll nl_here xs =
     (if newline \<in> set xs then Some (length (takeWhile (\<lambda>c. c \<noteq> newline) xs), 0) else None)"
  by (induction xs) (auto simp: nl_here_def)

lemma ms_look_newline:
  "ms (Look (Atom (Lit newline))) (p, s, g) = (if prefix [newline] s then [(p, s, g)] else [])"
  by (cases s) (auto simp: prefix_def)

lemma ms_quote_contents_Nil: "ms (p_re quote_contents_search_pattern) (p, [], g) = []"
  by (simp add: quote_contents_search_pattern_def ms_seq_group)

lemma ms_quote_contents_Cons:
  "first (ms (p_re quote_contents_search_pattern) (p, x # xs, g)) =
     (if x = newline \<and> newline \<in> set xs
      then Some (Suc p + length (takeWhile (\<lambda>c. c \<noteq> newline) xs),
                 drop (length (takeWhile (\<lambda>c. c \<noteq> newline) xs)) xs,
                 g(1 \<mapsto> (p, Suc p),
                   2 \<mapsto> (Suc p, Suc p + length (takeWhile (\<lambda>c. c \<noteq> newline) xs))))
      else None)"
proof (cases "x = newline")
  case False
  then show ?thesis by (simp add: quote_contents_search_pattern_def ms_seq_group)
next
  case True
  let ?g1 = "g(1 \<mapsto> (p, Suc p))"
  let ?F = "\<lambda>st. concat (map (\<lambda>(p', s', g'). [(p', s', g'(2 \<mapsto> (Suc p, p')))])
                          (ms (Look (Atom (Lit newline))) st))"
  have F: "first (?F (q, s, ?g1)) =
      map_option (\<lambda>l. (q, s, ?g1(2 \<mapsto> (Suc p, q)))) (nl_here s)" for q s
    by (simp add: ms_look_newline nl_here_def del: ms.simps)
  have "ms (p_re quote_contents_search_pattern) (p, x # xs, g) =
      concat (map ?F (ms (LazyStar (Atom DotAll)) (Suc p, xs, ?g1)))"
    using True
    by (simp add: quote_contents_search_pattern_def ms_seq_group ms.simps(3) [of "LazyStar _"]
        concat_map_concat_map)
  then have "first (ms (p_re quote_contents_search_pattern) (p, x # xs, g)) =
      map_option (\<lambda>(j, l). (Suc p + j, drop j xs, ?g1(2 \<mapsto> (Suc p, Suc p + j))))
        (find_lazy DotAll nl_here xs)"
    by (simp only: first_lazy_gen [where F = ?F and len = nl_here
          and R = "\<lambda>q s l. (q, s, ?g1(2 \<mapsto> (Suc p, q)))", OF F])
  with True show ?thesis by (simp add: find_lazy_newline)
qed

lemma drop_Cons_facts:
  assumes "drop p text = x # xs"
  shows "drop (Suc p) text = xs" "length text = p + Suc (length xs)"
proof -
  from assms show "drop (Suc p) text = xs" by (metis drop_Suc tl_drop list.sel(3))
  from assms have "length (drop p text) = Suc (length xs)" by simp
  moreover from assms have "p < length text" by (cases "p < length text") auto
  ultimately show "length text = p + Suc (length xs)" by simp
qed

definition quote_line_items :: "titem list" where
  "quote_line_items = [TChar newline, TChar CHR ''>'', TChar CHR '' '', TGroup 2]"

lemma quote_line_template:
  "parse_template quote_contents_search_pattern (bslash # ''n'' @ ''> '' @ bslash # ''g<contents>'')
     = Inr quote_line_items"
  by (simp add: parse_template.simps(2) tcons_def bslash_def newline_def escape_char_def
      is_digit_def is_identifier_def is_ascii_letter_def quote_contents_search_pattern_def
      quote_line_items_def)

lemma rsub_quote_contents:
  "drop p text = s \<Longrightarrow>
   rsub text (p_re quote_contents_search_pattern) quote_line_items p s = prefix_lines s"
proof (induction "length s" arbitrary: s p rule: less_induct)
  case less
  let ?r = "p_re quote_contents_search_pattern"
  show ?case
  proof (cases s)
    case Nil
    from rsub_Nil [OF ms_quote_contents_Nil] less.prems Nil show ?thesis by simp
  next
    case (Cons x xs)
    from less.prems Cons have here: "drop p text = x # xs" by simp
    note facts = drop_Cons_facts [OF here]
    show ?thesis
    proof (cases "x = newline \<and> newline \<in> set xs")
      case False
      then have "first (ms ?r (p, x # xs, Map.empty)) = None"
        by (auto simp add: ms_quote_contents_Cons simp del: ms.simps)
      then have no: "ms ?r (p, x # xs, Map.empty) = []" by simp
      from less.hyps [of xs "Suc p"] Cons facts(1)
      have "rsub text ?r quote_line_items (Suc p) xs = prefix_lines xs" by simp
      with rsub_skip [OF no here] False Cons show ?thesis by auto
    next
      case True
      let ?k = "length (takeWhile (\<lambda>c. c \<noteq> newline) xs)"
      let ?g = "[1 \<mapsto> (p, Suc p), 2 \<mapsto> (Suc p, Suc p + ?k)]"
      from True have "first (ms ?r (p, x # xs, Map.empty)) = Some (Suc p + ?k, drop ?k xs, ?g)"
        by (simp add: ms_quote_contents_Cons del: ms.simps)
      then obtain rest where hd: "ms ?r (p, x # xs, Map.empty) = (Suc p + ?k, drop ?k xs, ?g) # rest"
        by (blast dest: first_SomeD)
      have adv: "p < Suc p + ?k" by simp
      have k: "?k \<le> length xs" by (rule length_takeWhile_le)
      have tk: "take ?k xs = takeWhile (\<lambda>c. c \<noteq> newline) xs"
        by (metis append_eq_conv_conj takeWhile_dropWhile_id)
      have dk: "drop ?k xs = dropWhile (\<lambda>c. c \<noteq> newline) xs"
        by (metis append_eq_conv_conj takeWhile_dropWhile_id)
      from k facts(2) have "py_slice text (int (Suc p)) (int (Suc p + ?k))
          = take (Suc p + ?k - Suc p) (drop (Suc p) text)"
        by (intro py_slice_nat) simp_all
      with facts(1) tk have slice: "py_slice text (int (Suc p)) (int (Suc p + ?k))
          = takeWhile (\<lambda>c. c \<noteq> newline) xs" by simp
      have ex: "expand_template quote_line_items (mk_match text (p, Suc p + ?k, ?g))
          = newline # ''> '' @ takeWhile (\<lambda>c. c \<noteq> newline) xs"
        using slice
        by (simp add: expand_template_def expand_item_def quote_line_items_def mk_match_def
            m_group_def)
      from drop_more [OF facts(1), of ?k] have "drop (Suc p + ?k) text = drop ?k xs" by simp
      moreover have "length (drop ?k xs) < length s" using Cons by simp
      ultimately have "rsub text ?r quote_line_items (Suc p + ?k) (drop ?k xs)
          = prefix_lines (drop ?k xs)"
        using less.hyps [of "drop ?k xs" "Suc p + ?k"] by simp
      with rsub_match [OF hd adv, of "text" quote_line_items] ex
      have "rsub text ?r quote_line_items p (x # xs)
          = newline # ''> '' @ takeWhile (\<lambda>c. c \<noteq> newline) xs
            @ prefix_lines (dropWhile (\<lambda>c. c \<noteq> newline) xs)"
        by (simp add: dk)
      also have "takeWhile (\<lambda>c. c \<noteq> newline) xs @ prefix_lines (dropWhile (\<lambda>c. c \<noteq> newline) xs)
          = prefix_lines xs"
      proof -
        have "newline \<notin> set (takeWhile (\<lambda>c. c \<noteq> newline) xs)"
          by (auto dest: set_takeWhileD)
        from prefix_lines_append [OF this, of "dropWhile (\<lambda>c. c \<noteq> newline) xs"]
        show ?thesis by simp
      qed
      finally show ?thesis using True Cons by simp
    qed
  qed
qed

lemma re_sub_quote_contents:
  "re_sub quote_contents_search_pattern (bslash # ''n'' @ ''> '' @ bslash # ''g<contents>'') s 0
     = Inr (prefix_lines s)"
  by (simp only: re_sub_rsub [OF quote_line_template] rsub_quote_contents [of 0 s s, simplified])

lemma scan_SomeD:
  "scan r p s = Some (b, e, g) \<Longrightarrow>
   p \<le> b \<and> (\<exists>s' rest. ms r (b, drop (b - p) s, Map.empty) = (e, s', g) # rest)"
proof (induction s arbitrary: p)
  case Nil
  then show ?case by (auto split: list.splits)
next
  case (Cons x xs)
  show ?case
  proof (cases "ms r (p, x # xs, Map.empty)")
    case Nil
    with Cons.prems have "scan r (Suc p) xs = Some (b, e, g)" by simp
    from Cons.IH [OF this] obtain s' rest where le: "Suc p \<le> b"
      and m: "ms r (b, drop (b - Suc p) xs, Map.empty) = (e, s', g) # rest" by blast
    from le have "b - p = Suc (b - Suc p)" by simp
    with le m show ?thesis by simp
  next
    case (Cons a rest)
    with Cons.prems show ?thesis by (auto split: prod.splits)
  qed
qed

lemma set_prefix_lines: "set (prefix_lines s) \<subseteq> set s \<union> {CHR ''>'', CHR '' ''}"
  by (induction s) auto

lemma close_len_shape:
  assumes "close_len name s = Some n"
  shows "\<exists>i j. take n s = ''<'' @ replicate i bslash @ replicate (Suc j) CHR ''/'' @ name @ ''>''"
proof -
  from assms obtain x t where s: "s = x # t" by (cases s) (auto simp: close_len_def)
  define u where "u = dropWhile (\<lambda>c. c = bslash) t"
  define v where "v = dropWhile (\<lambda>c. c = CHR ''/'') u"
  from assms have x: "x = CHR ''<''" and uv: "u \<noteq> v" and pre: "prefix (name @ ''>'') v"
    and n: "n = length s - length v + length name + 1"
    by (auto simp: close_len_def s Let_def u_def v_def split: if_splits)
  from pre obtain w where v: "v = name @ ''>'' @ w" by (auto simp: prefix_def)
  define a where "a = takeWhile (\<lambda>c. c = bslash) t"
  define b where "b = takeWhile (\<lambda>c. c = CHR ''/'') u"
  have t: "t = a @ u" by (simp add: a_def u_def)
  have u: "u = b @ v" by (simp add: b_def v_def)
  have a: "a = replicate (length a) bslash"
    unfolding a_def by (induction t) auto
  have b: "b = replicate (length b) CHR ''/''"
    unfolding b_def by (induction u) auto
  from uv u have "b \<noteq> []" by auto
  then obtain j where j: "length b = Suc j" by (cases b) auto
  have full: "s = (''<'' @ a @ b @ name @ ''>'') @ w" by (simp add: s x t u v)
  have "n = length (''<'' @ a @ b @ name @ ''>'')"
    by (simp add: n s t u v)
  with full have "take n s = ''<'' @ a @ b @ name @ ''>''"
    by (metis append_eq_conv_conj)
  with a b j show ?thesis by metis
qed

lemma close_len_bound:
  assumes "close_len name s = Some n"
  shows "n \<le> length s"
proof -
  from assms obtain x t where s: "s = x # t" by (cases s) (auto simp: close_len_def)
  define v where "v = dropWhile (\<lambda>c. c = CHR ''/'') (dropWhile (\<lambda>c. c = bslash) t)"
  from assms have pre: "prefix (name @ ''>'') v"
    and n: "n = length s - length v + length name + 1"
    by (auto simp: close_len_def s Let_def v_def split: if_splits)
  from pre have "length (name @ ''>'') \<le> length v" by (rule prefix_length_le)
  moreover have "length v \<le> length t"
    unfolding v_def by (meson length_dropWhile_le order_trans)
  ultimately show ?thesis using n s by simp
qed

lemma ms_quote_parent:
  "first (ms (p_re quote_parent_search_pattern) (p, s, g)) =
     (if prefix ''<blockquote>'' s
      then map_option
             (\<lambda>(j, l). (p + 12 + j + l, drop (12 + j + l) s,
                        g(1 \<mapsto> (p, p + 12), 2 \<mapsto> (p + 12, p + 12 + j),
                          3 \<mapsto> (p + 12 + j, p + 12 + j + l))))
             (find_lazy DotAll (close_len ''blockquote'') (drop 12 s))
      else None)"
proof (cases "prefix ''<blockquote>'' s")
  case False
  then show ?thesis
    by (simp add: quote_parent_search_pattern_def ms_seq_group ms_lit)
next
  case True
  then obtain u where s: "s = ''<blockquote>'' @ u" by (auto simp: prefix_def)
  let ?g1 = "g(1 \<mapsto> (p, p + 12))"
  let ?k3 = "Seq (Group 3 (closing_tag ''blockquote'')) Eps"
  let ?F = "\<lambda>(p', s', g'). ms ?k3 (p', s', g'(2 \<mapsto> (p + 12, p')))"
  have F: "first (?F (q, t, ?g1)) =
      map_option (\<lambda>l. (q + l, drop l t, ?g1(2 \<mapsto> (p + 12, q), 3 \<mapsto> (q, q + l))))
        (close_len ''blockquote'' t)" for q t
    by (simp add: ms_seq_group ms_closing_tag split: option.splits)
  have "ms (p_re quote_parent_search_pattern) (p, s, g) =
      concat (map ?F (ms (LazyStar (Atom DotAll)) (p + 12, u, ?g1)))"
    by (simp add: s quote_parent_search_pattern_def ms_seq_group [of "Suc 0"] ms_seq_group [of "Suc (Suc 0)"] ms_lit
        eval_nat_numeral)
  then have "first (ms (p_re quote_parent_search_pattern) (p, s, g)) =
      map_option (\<lambda>(j, l). (p + 12 + j + l, drop l (drop j u),
                   ?g1(2 \<mapsto> (p + 12, p + 12 + j), 3 \<mapsto> (p + 12 + j, p + 12 + j + l))))
        (find_lazy DotAll (close_len ''blockquote'') u)"
    by (simp only: first_lazy_gen [where F = ?F and len = "close_len ''blockquote''"
          and R = "\<lambda>q t l. (q + l, drop l t, ?g1(2 \<mapsto> (p + 12, q), 3 \<mapsto> (q, q + l)))", OF F])
  moreover have d0: "drop 12 s = u" by (simp add: s)
  moreover have "drop (12 + j + l) s = drop l (drop j u)" for j l
  proof -
    have "drop (12 + j + l) s = drop l (drop j (drop 12 s))" by (simp add: ac_simps)
    with d0 show ?thesis by simp
  qed
  ultimately show ?thesis using True by (simp only: if_True)
qed

lemma prefix_drop_eq: "prefix w s \<Longrightarrow> s = w @ drop (length w) s"
  by (auto simp: prefix_def)

lemma drop_split: "drop a xs = take k (drop a xs) @ drop (a + k) xs"
  by (metis append_take_drop_id drop_drop add.commute)

lemma quote_block_located:
  assumes "re_search quote_parent_search_pattern text = Some m"
  obtains b j l g where
    "scan (p_re quote_parent_search_pattern) 0 text = Some (b, b + 12 + j + l, g)"
    "m = mk_match text (b, b + 12 + j + l, g)"
    "g 2 = Some (b + 12, b + 12 + j)"
    "text = take b text @ ''<blockquote>'' @ take j (drop (b + 12) text) @
            take l (drop (b + 12 + j) text) @ drop (b + 12 + j + l) text"
    "b + 12 + j \<le> length text"
    "close_len ''blockquote'' (drop (b + 12 + j) text) = Some l"
proof -
  let ?r = "p_re quote_parent_search_pattern"
  from assms obtain b e g where sc: "scan ?r 0 text = Some (b, e, g)"
    and m: "m = mk_match text (b, e, g)"
    by (auto simp: re_search_def)
  from scan_SomeD [OF sc] obtain s' rest
    where "ms ?r (b, drop b text, Map.empty) = (e, s', g) # rest" by auto
  then have fst: "first (ms ?r (b, drop b text, Map.empty)) = Some (e, s', g)" by simp
  have pre: "prefix ''<blockquote>'' (drop b text)"
  proof (rule ccontr)
    assume "\<not> prefix ''<blockquote>'' (drop b text)"
    with fst show False by (simp only: ms_quote_parent if_False) simp
  qed
  with fst obtain j l where fl: "find_lazy DotAll (close_len ''blockquote'') (drop 12 (drop b text))
        = Some (j, l)"
    and e: "e = b + 12 + j + l"
    and g: "g = [1 \<mapsto> (b, b + 12), 2 \<mapsto> (b + 12, b + 12 + j),
                 3 \<mapsto> (b + 12 + j, b + 12 + j + l)]"
    by (simp only: ms_quote_parent if_True) auto
  have d12: "drop 12 (drop b text) = drop (b + 12) text" by (simp add: add.commute)
  from find_lazy_bounds [OF fl] have j: "j \<le> length (drop (b + 12) text)"
    and cl: "close_len ''blockquote'' (drop (b + 12 + j) text) = Some l"
    by (simp_all add: d12 add.commute)
  have l12: "length ''<blockquote>'' = 12" by simp
  from prefix_drop_eq [OF pre] have "drop b text = ''<blockquote>'' @ drop 12 (drop b text)"
    unfolding l12 .
  then have db: "drop b text = ''<blockquote>'' @ drop (b + 12) text"
    by (simp only: d12)
  then have "length (drop b text) = 12 + length (drop (b + 12) text)" by simp
  with j have len: "b + 12 + j \<le> length text" by simp
  have "text = take b text @ drop b text" by simp
  also have "drop b text = ''<blockquote>'' @ drop (b + 12) text" by (rule db)
  also have "drop (b + 12) text = take j (drop (b + 12) text) @ drop (b + 12 + j) text"
    by (rule drop_split)
  also have "drop (b + 12 + j) text = take l (drop (b + 12 + j) text) @ drop (b + 12 + j + l) text"
    by (rule drop_split)
  finally have split: "text = take b text @ ''<blockquote>'' @ take j (drop (b + 12) text) @
      take l (drop (b + 12 + j) text) @ drop (b + 12 + j + l) text" .
  from sc m e g split len cl show ?thesis by (intro that [of b j l g]) simp_all
qed

lemma bslash_prefix_lines: "bslash \<notin> set c \<Longrightarrow> bslash \<notin> set (prefix_lines c)"
  using set_prefix_lines [of c] by (auto simp: bslash_def)

lemma quote_loop_step:
  assumes "re_search quote_parent_search_pattern text = Some m"
    and "quote_step text m = Inr t"
  shows "quote_loop text = quote_loop t"
  using assms by (subst quote_loop.simps) simp

subsection \<open>Unordered lists and task lists\<close>

lemma re_sub_plain_pattern:
  assumes "w \<noteq> []" and "parse_template (plain_pattern w) tmpl = Inr (map TChar r)"
  shows "re_sub (plain_pattern w) tmpl s 0 = Inr (replace_all w r s)"
proof -
  have "rsub s (lit w) (map TChar r) 0 s = replace_all w r s"
    using assms(1) by (intro rsub_lit) simp_all
  with re_sub_rsub [OF assms(2), of s] show ?thesis by (simp add: plain_pattern_def)
qed

lemma item_templates:
  "parse_template pat (bslash # ''n- [X] '') = Inr (map TChar (newline # ''- [X] ''))"
  "parse_template pat (bslash # ''n- [ ] '') = Inr (map TChar (newline # ''- [ ] ''))"
  "parse_template pat (bslash # ''n- '') = Inr (map TChar (newline # ''- ''))"
  by (simp_all add: parse_template.simps(2) tcons_def bslash_def newline_def escape_char_def
      is_digit_def)

lemma close_len_pos: "close_len name s = Some n \<Longrightarrow> 0 < n"
  by (cases s) (auto simp: close_len_def Let_def split: if_splits)

lemma re_sub_li_close:
  "re_sub li_close_pattern [] s 0 = Inr (replace_by (close_len ''li'') [] s)"
proof -
  have tag: "ms (closing_tag ''li'') (p, t, g) =
      (case close_len ''li'' t of None \<Rightarrow> [] | Some n \<Rightarrow> [(p + n, drop n t, g)])" for p t g
    by (rule ms_closing_tag) simp_all
  have "rsub s (closing_tag ''li'') [] 0 s = replace_by (close_len ''li'') [] s"
  proof (rule rsub_by_len)
    show "ms (closing_tag ''li'') (p, t, Map.empty) = []" if "close_len ''li'' t = None" for p t
      using that by (simp add: tag)
    show "0 < n \<and> (\<exists>g. first (ms (closing_tag ''li'') (p, t, Map.empty)) = Some (p + n, drop n t, g))"
      if "close_len ''li'' t = Some n" for p t n
      using that close_len_pos [OF that] by (simp add: tag)
    show "close_len ''li'' [] = None" by (simp add: close_len_def)
    show "expand_template [] m = []" for m by (simp add: expand_template_def)
    show "drop 0 s = s" by simp
  qed
  moreover have "parse_template li_close_pattern [] = Inr []" by simp
  ultimately show ?thesis
    using re_sub_rsub [of li_close_pattern "[]" "[]" s] by (simp add: li_close_pattern_def)
qed

definition list_items :: "bool \<Rightarrow> string \<Rightarrow> string" where
  \<comment> \<open>the markers of the items rewritten, for a task list or for a plain list, then the
      closing markers \<open><\\*/+li>\<close> taken out\<close>
  "list_items task s =
     replace_by (close_len ''li'') []
       (if task
        then replace_all ''<li>'' (newline # ''- [ ] '')
               (replace_all ''<li data-checked=\"true\">'' (newline # ''- [X] '') s)
        else replace_all ''<li>'' (newline # ''- '') s)"

lemma ul_items_spec:
  "ul_items opening_tag s =
     Inr (list_items (re_search tl_start_search_pattern opening_tag \<noteq> None) s)"
proof -
  have 1: "re_sub (plain_pattern ''<li data-checked=\"true\">'') (bslash # ''n- [X] '') t 0
      = Inr (replace_all ''<li data-checked=\"true\">'' (newline # ''- [X] '') t)" for t
    by (rule re_sub_plain_pattern [OF _ item_templates(1)]) simp
  have 2: "re_sub (plain_pattern ''<li>'') (bslash # ''n- [ ] '') t 0
      = Inr (replace_all ''<li>'' (newline # ''- [ ] '') t)" for t
    by (rule re_sub_plain_pattern [OF _ item_templates(2)]) simp
  have 3: "re_sub (plain_pattern ''<li>'') (bslash # ''n- '') t 0
      = Inr (replace_all ''<li>'' (newline # ''- '') t)" for t
    by (rule re_sub_plain_pattern [OF _ item_templates(3)]) simp
  show ?thesis
    unfolding ul_items_def list_items_def 1 2 3
    by (simp add: re_sub_li_close)
qed

text \<open>A pattern without groups leaves the captured spans as they are.\<close>

fun groupless :: "regex \<Rightarrow> bool" where
  "groupless (Atom c) = True"
| "groupless Eps = True"
| "groupless (Seq a b) = (groupless a \<and> groupless b)"
| "groupless (Alt a b) = (groupless a \<and> groupless b)"
| "groupless (Star r) = groupless r"
| "groupless (LazyStar r) = groupless r"
| "groupless (Group n r) = False"
| "groupless (Look r) = groupless r"

lemma ms_groupless:
  "groupless r \<Longrightarrow> (p', s', g') \<in> set (ms r (p, s, g)) \<Longrightarrow> g' = g"
proof (induction r "(p, s, g)" arbitrary: p s g p' s' g' rule: ms.induct)
  case (1 c p s g)
  then show ?case by (auto split: list.splits if_splits)
next
  case (2 p s g)
  then show ?case by simp
next
  case (3 a b p s g)
  from "3.prems" obtain p1 s1 g1 where st: "(p1, s1, g1) \<in> set (ms a (p, s, g))"
    and in_b: "(p', s', g') \<in> set (ms b (p1, s1, g1))" by (auto simp: ms.simps(3))
  from "3.prems" have a: "groupless a" and b: "groupless b" by simp_all
  from "3.hyps"(1) [OF a st] have "g1 = g" .
  moreover from "3.hyps"(2) [OF st b in_b] have "g' = g1" .
  ultimately show ?case by simp
next
  case (4 a b p s g)
  then show ?case by auto
next
  case (5 r p s g)
  from "5.prems" have r: "groupless r" by simp
  from "5.prems" consider "(p', s', g') = (p, s, g)"
    | p1 s1 g1 where "(p1, s1, g1) \<in> set (ms r (p, s, g))" "shorter (p, s, g) (p1, s1, g1)"
        "(p', s', g') \<in> set (ms (Star r) (p1, s1, g1))"
    by (subst (asm) (2) ms.simps(5)) auto
  then show ?case
  proof cases
    case 1
    then show ?thesis by simp
  next
    case 2
    from "5.hyps"(1) [OF r 2(1)] have "g1 = g" .
    moreover from 2 have "(p1, s1, g1) \<in> set (filter (shorter (p, s, g)) (ms r (p, s, g)))" by simp
    from "5.hyps"(2) [OF this "5.prems"(1) 2(3)] have "g' = g1" .
    ultimately show ?thesis by simp
  qed
next
  case (6 r p s g)
  from "6.prems" have r: "groupless r" by simp
  from "6.prems" consider "(p', s', g') = (p, s, g)"
    | p1 s1 g1 where "(p1, s1, g1) \<in> set (ms r (p, s, g))" "shorter (p, s, g) (p1, s1, g1)"
        "(p', s', g') \<in> set (ms (LazyStar r) (p1, s1, g1))"
    by (subst (asm) (2) ms.simps(6)) auto
  then show ?case
  proof cases
    case 1
    then show ?thesis by simp
  next
    case 2
    from "6.hyps"(1) [OF r 2(1)] have "g1 = g" .
    moreover from 2 have "(p1, s1, g1) \<in> set (filter (shorter (p, s, g)) (ms r (p, s, g)))" by simp
    from "6.hyps"(2) [OF this "6.prems"(1) 2(3)] have "g' = g1" .
    ultimately show ?thesis by simp
  qed
next
  case (7 n r p s g)
  then show ?case by simp
next
  case (8 r p s g)
  show ?case
  proof (cases "ms r (p, s, g)")
    case Nil
    with "8.prems" show ?thesis by simp
  next
    case (Cons st rest)
    obtain p1 s1 g1 where st: "st = (p1, s1, g1)" by (cases st)
    with Cons "8.prems" have g': "g' = g1" by simp
    from Cons st have "(p1, s1, g1) \<in> set (ms r (p, s, g))" by simp
    from "8.hyps" [OF _ this] "8.prems" g' show ?thesis by simp
  qed
qed

lemma groupless_lit [simp]: "groupless (lit w)"
  by (induction w) (simp_all add: lit.simps)

lemma groupless_closing_tag [simp]: "groupless (closing_tag name)"
  by (simp add: closing_tag_def Plus_def)

lemma ms_seq_group_mem:
  assumes "(e, s', g') \<in> set (ms (Seq (Group n r) k) (p, s, g))" and "groupless r"
  obtains q s1 where "(q, s1, g) \<in> set (ms r (p, s, g))"
    and "(e, s', g') \<in> set (ms k (q, s1, g(n \<mapsto> (p, q))))"
proof -
  let ?F = "\<lambda>(p', s', g'). ms k (p', s', g'(n \<mapsto> (p, p')))"
  from assms(1) have "(e, s', g') \<in> set (concat (map ?F (ms r (p, s, g))))"
    by (simp only: ms_seq_group)
  then obtain st where st: "st \<in> set (ms r (p, s, g))" and e: "(e, s', g') \<in> set (?F st)"
    by (simp only: set_concat set_map) blast
  obtain q s1 g1 where "st = (q, s1, g1)" by (cases st)
  with st e have in_r: "(q, s1, g1) \<in> set (ms r (p, s, g))"
    and in_k: "(e, s', g') \<in> set (ms k (q, s1, g1(n \<mapsto> (p, q))))"
    by (simp_all only: prod.case)
  from ms_groupless [OF assms(2) in_r] have "g1 = g" .
  with in_r in_k that show ?thesis by blast
qed

lemma py_slice_mid:
  "py_slice (a @ w @ z) (int (length a)) (int (length a + length w)) = w"
  using py_slice_nat [of "length a" "length a + length w" "a @ w @ z"] by simp

lemma ul_block_located:
  assumes "re_search ul_parent_search_pattern text = Some m"
  obtains before w1 w2 w3 w4 after g where
    "text = before @ w1 @ w2 @ w3 @ w4 @ after"
    "scan (p_re ul_parent_search_pattern) 0 text
       = Some (length before, length before + length w1 + length w2 + length w3 + length w4, g)"
    "m = mk_match text
           (length before, length before + length w1 + length w2 + length w3 + length w4, g)"
    "g 1 = Some (length before, length before + length w1)"
    "g 2 = Some (length before + length w1, length before + length w1 + length w2)"
    "g 3 = Some (length before + length w1 + length w2,
                 length before + length w1 + length w2 + length w3)"
    "\<exists>i j. w4 = ''<'' @ replicate i bslash @ replicate (Suc j) CHR ''/'' @ ''ul>''"
proof -
  let ?r1 = "seqs [lit ''<ul'', LazyStar (Atom DotAll), lit ''>'']"
  let ?r2 = "Star (Atom Space)"
  let ?r3 = "LazyStar (Atom DotAll)"
  let ?r4 = "closing_tag ''ul''"
  let ?k4 = "Seq (Group 4 ?r4) Eps"
  let ?k3 = "Seq (Group 3 ?r3) ?k4"
  let ?k2 = "Seq (Group 2 ?r2) ?k3"
  let ?r = "Seq (Group 1 ?r1) ?k2"
  have r: "p_re ul_parent_search_pattern = ?r" by (simp add: ul_parent_search_pattern_def)
  from assms obtain b e g where sc: "scan ?r 0 text = Some (b, e, g)"
    and m: "m = mk_match text (b, e, g)"
    by (auto simp: re_search_def r)
  from scan_SomeD [OF sc] obtain s' rest
    where "ms ?r (b, drop b text, Map.empty) = (e, s', g) # rest" by auto
  then have "(e, s', g) \<in> set (ms ?r (b, drop b text, Map.empty))" by simp
  then obtain q s1 where m1: "(q, s1, Map.empty) \<in> set (ms ?r1 (b, drop b text, Map.empty))"
    and "(e, s', g) \<in> set (ms ?k2 (q, s1, [1 \<mapsto> (b, q)]))"
    by (rule ms_seq_group_mem) simp
  then obtain w s2 where m2: "(w, s2, [1 \<mapsto> (b, q)]) \<in> set (ms ?r2 (q, s1, [1 \<mapsto> (b, q)]))"
    and "(e, s', g) \<in> set (ms ?k3 (w, s2, [1 \<mapsto> (b, q), 2 \<mapsto> (q, w)]))"
    by - (erule ms_seq_group_mem, simp)
  then obtain c s3 where
    m3: "(c, s3, [1 \<mapsto> (b, q), 2 \<mapsto> (q, w)])
           \<in> set (ms ?r3 (w, s2, [1 \<mapsto> (b, q), 2 \<mapsto> (q, w)]))"
    and "(e, s', g) \<in> set (ms ?k4 (c, s3, [1 \<mapsto> (b, q), 2 \<mapsto> (q, w), 3 \<mapsto> (w, c)]))"
    by - (erule ms_seq_group_mem, simp)
  then obtain e' s4 where
    m4: "(e', s4, [1 \<mapsto> (b, q), 2 \<mapsto> (q, w), 3 \<mapsto> (w, c)])
           \<in> set (ms ?r4 (c, s3, [1 \<mapsto> (b, q), 2 \<mapsto> (q, w), 3 \<mapsto> (w, c)]))"
    and "(e, s', g) \<in> set (ms Eps (e', s4, [1 \<mapsto> (b, q), 2 \<mapsto> (q, w), 3 \<mapsto> (w, c), 4 \<mapsto> (c, e')]))"
    by - (erule ms_seq_group_mem, simp)
  then have e': "e' = e" and s4: "s4 = s'"
    and g: "g = [1 \<mapsto> (b, q), 2 \<mapsto> (q, w), 3 \<mapsto> (w, c), 4 \<mapsto> (c, e)]" by simp_all
  from ms_consumes [OF m1] obtain w1 where w1: "drop b text = w1 @ s1" "q = b + length w1" by blast
  from ms_consumes [OF m2] obtain w2 where w2: "s1 = w2 @ s2" "w = q + length w2" by blast
  from ms_consumes [OF m3] obtain w3 where w3: "s2 = w3 @ s3" "c = w + length w3" by blast
  from ms_consumes [OF m4] obtain w4 where w4: "s3 = w4 @ s4" "e' = c + length w4" by blast
  from scan_bounds [OF sc] have "b \<le> length text" by simp
  then have lb: "length (take b text) = b" by simp
  have split: "text = take b text @ w1 @ w2 @ w3 @ w4 @ s4"
    using append_take_drop_id [of b "text"] w1(1) w2(1) w3(1) w4(1) by simp
  obtain n where cl: "close_len ''ul'' s3 = Some n" and n: "e' = c + n"
  proof (cases "close_len ''ul'' s3")
    case None
    with m4 show ?thesis by (simp add: ms_closing_tag)
  next
    case (Some n)
    with m4 have "e' = c + n" by (simp add: ms_closing_tag)
    with Some that show ?thesis by blast
  qed
  from n w4 have "take n s3 = w4" by simp
  with close_len_shape [OF cl]
  have shape: "\<exists>i j. w4 = ''<'' @ replicate i bslash @ replicate (Suc j) CHR ''/'' @ ''ul>''"
    by simp
  have e: "e = length (take b text) + length w1 + length w2 + length w3 + length w4"
    using lb e' w1(2) w2(2) w3(2) w4(2) by simp
  show ?thesis
  proof (rule that [of "take b text" w1 w2 w3 w4 s4 g])
    show "text = take b text @ w1 @ w2 @ w3 @ w4 @ s4" by (rule split)
    show "scan (p_re ul_parent_search_pattern) 0 text
       = Some (length (take b text),
               length (take b text) + length w1 + length w2 + length w3 + length w4, g)"
      using sc lb e by (simp only: r)
    show "m = mk_match text
           (length (take b text),
            length (take b text) + length w1 + length w2 + length w3 + length w4, g)"
      using m lb e by simp
    show "g 1 = Some (length (take b text), length (take b text) + length w1)"
      using g lb w1(2) by simp
    show "g 2 = Some (length (take b text) + length w1,
                      length (take b text) + length w1 + length w2)"
      using g lb w1(2) w2(2) by simp
    show "g 3 = Some (length (take b text) + length w1 + length w2,
                 length (take b text) + length w1 + length w2 + length w3)"
      using g lb w1(2) w2(2) w3(2) by simp
    show "\<exists>i j. w4 = ''<'' @ replicate i bslash @ replicate (Suc j) CHR ''/'' @ ''ul>''"
      by (rule shape)
  qed
qed

lemma parse_template_group2:
  assumes "bslash \<notin> set u" and "u = [] \<or> \<not> is_digit (hd u)" and "2 \<le> p_groups pat"
  shows "parse_template pat (bslash # ''2'' @ u) = Inr (TGroup 2 # map TChar u)"
proof (cases u)
  case Nil
  with assms(3) show ?thesis
    by (simp add: parse_template.simps(2) bslash_def is_digit_def digit_val_def)
next
  case (Cons x xs)
  with assms(2) have x: "\<not> is_digit x" by simp
  from assms(1) have "parse_template pat u = Inr (map TChar u)" by (rule parse_template_plain)
  with Cons x assms(3) show ?thesis
    by (subst parse_template.simps(2))
       (simp add: bslash_def is_digit_def digit_val_def tcons_def)
qed

lemma re_sub_once_items:
  assumes "scan (p_re pat) 0 text = Some (b, e, g)" and "parse_template pat repl = Inr items"
  shows "re_sub pat repl text 1
     = Inr (take b text @ expand_template items (mk_match text (b, e, g)) @ drop e text)"
  using assms by (simp add: re_sub_def matches_from_once)

lemma ul_loop_step:
  assumes "re_search ul_parent_search_pattern text = Some m"
    and "ul_step text m = Inr t"
  shows "ul_loop text = ul_loop t"
  using assms by (subst ul_loop.simps) simp

section \<open>The claims\<close>

text \<open>
  C1 (the converter returns a string for every input and never raises). The blocks that
  \<open>convert_lists\<close> and \<open>convert_quote_blocks\<close> splice back into the text are handed to
  \<open>re.sub\<close> as the replacement template, so journal text inside a block is read as
  template syntax. A blockquote that holds a Windows path has the escape \<open>\U\<close>, which
  the template parser rejects, and an unordered list whose text starts with a digit turns
  \<open>\2\<close> into the group reference \<open>\25\<close>: in both cases \<open>re.sub\<close> raises \<open>re.error\<close>.
\<close>

theorem convert_raises_on_block_text:
  "convert_journey_html_to_dayone_markdown (''<blockquote>C:'' @ bslash # ''Users</blockquote>'')
     = Some (Inl ReError) \<and>
   convert_journey_html_to_dayone_markdown ''<ul>5 apples</ul>'' = Some (Inl ReError)"
  by (simp add: evals)

text \<open>
  C2 (all four wrapping rules move a non-breaking space that stands before the closing tag
  behind the new closing marker). The rules for emphasis, strong and strikethrough capture
  the entity and emit it after the marker; the underline rule has no such group, so the
  entity stays inside the emphasis run and becomes a space before the closing marker.
\<close>

theorem underline_keeps_nbsp_inside:
  "convert_simple ''<span style=\"text-decoration: underline;\">word&nbsp;</span>'' = Inr ''*word *'' \<and>
   convert_simple ''<em>word&nbsp;</em>'' = Inr ''*word* '' \<and>
   convert_simple ''<strong>word&nbsp;</strong>'' = Inr ''**word** '' \<and>
   convert_simple ''<del>word&nbsp;</del>'' = Inr ''~~word~~ ''"
  by (simp add: evals)

text \<open>
  C3 (the k-th item of an ordered list becomes a newline, \<open>k. \<close>, the item's content and
  the whitespace after the item). The line built for each item is part of the replacement
  template, so a backslash sequence in an item is expanded: the two characters \<open>\t\<close> of
  the item come out as one tab character.
\<close>

theorem ordered_item_content_is_expanded:
  "convert_lists (''<ol><li>a'' @ bslash # ''tb</li></ol>'')
     = Some (Inr [newline, CHR ''1'', CHR ''.'', CHR '' '', CHR ''a'', CHR 0x09, CHR ''b''])"
  by (simp add: evals)

text \<open>The example of the specification, three items on one line without backslashes.\<close>

lemma ordered_list_example:
  "convert_lists ''<ol><li>Alpha</li><li>Beta</li><li>Gamma</li></ol>''
     = Some (Inr ''\<newline>1. Alpha\<newline>2. Beta\<newline>3. Gamma'')"
  by (simp add: evals)









lemma hr_rule_examples:
  "hr_rule ''a<hr>b'' = ''a\<newline>---b''"
  "hr_rule ''a<hr dir=\"ltr\">b'' = ''a\<newline>---b''"
  "hr_rule ''a<hr class=\"x\">b'' = ''a<hr class=\"x\">b''"
  by (simp_all add: hr_rule_def hr_len_def newline_def)

text \<open>
  C8 (each of the block loops terminates on every input). The replacement template is the
  text of the block, and \<open>\g<0>\<close> in a template stands for the whole match. A blockquote
  or an unordered list whose content is \<open>\g<0>\<close> is therefore replaced by itself: the
  text after the pass is the text before it, the search finds the same block again, and
  the loop does not return.
\<close>

lemma quote_loop_fixed_point:
  "\<exists>m. re_search quote_parent_search_pattern (''<blockquote>'' @ bslash # ''g<0></blockquote>'') = Some m \<and>
       quote_step (''<blockquote>'' @ bslash # ''g<0></blockquote>'') m
         = Inr (''<blockquote>'' @ bslash # ''g<0></blockquote>'')"
  by (simp add: evals)

lemma ul_loop_fixed_point:
  "\<exists>m. re_search ul_parent_search_pattern (''<ul>'' @ bslash # ''g<0></ul>'') = Some m \<and>
       ul_step (''<ul>'' @ bslash # ''g<0></ul>'') m = Inr (''<ul>'' @ bslash # ''g<0></ul>'')"
  by (simp add: evals)

lemma quote_loop_stuck:
  assumes m: "re_search quote_parent_search_pattern x0 = Some m"
    and step: "quote_step x0 m = Inr x0"
  shows "quote_loop x0 = None"
proof (rule ccontr)
  assume "quote_loop x0 \<noteq> None"
  then obtain y where ret: "quote_loop x0 = Some y" by auto
  have "x0 \<noteq> x0"
  proof (rule quote_loop.raw_induct [where P = "\<lambda>x y. x \<noteq> x0", OF _ ret])
    fix f x y
    assume IH: "\<And>x y. f x = Some y \<Longrightarrow> x \<noteq> x0"
      and eq: "(case re_search quote_parent_search_pattern x of
          None \<Rightarrow> Some (Inr x)
        | Some quote_match \<Rightarrow>
            (case quote_step x quote_match of
               Inl e \<Rightarrow> Some (Inl e)
             | Inr text' \<Rightarrow> f text')) = Some y"
    show "x \<noteq> x0"
    proof
      assume "x = x0"
      with eq m step have "f x0 = Some y" by simp
      from IH [OF this] show False by simp
    qed
  qed
  then show False by simp
qed

lemma ul_loop_stuck:
  assumes m: "re_search ul_parent_search_pattern x0 = Some m"
    and step: "ul_step x0 m = Inr x0"
  shows "ul_loop x0 = None"
proof (rule ccontr)
  assume "ul_loop x0 \<noteq> None"
  then obtain y where ret: "ul_loop x0 = Some y" by auto
  have "x0 \<noteq> x0"
  proof (rule ul_loop.raw_induct [where P = "\<lambda>x y. x \<noteq> x0", OF _ ret])
    fix f x y
    assume IH: "\<And>x y. f x = Some y \<Longrightarrow> x \<noteq> x0"
      and eq: "(case re_search ul_parent_search_pattern x of
          None \<Rightarrow> Some (Inr x)
        | Some ul_match \<Rightarrow>
            (case ul_step x ul_match of
               Inl e \<Rightarrow> Some (Inl e)
             | Inr text' \<Rightarrow> f text')) = Some y"
    show "x \<noteq> x0"
    proof
      assume "x = x0"
      with eq m step have "f x0 = Some y" by simp
      from IH [OF this] show False by simp
    qed
  qed
  then show False by simp
qed

lemma ol_loop_no_block:
  "ol_loop (''<ul>'' @ bslash # ''g<0></ul>'') = Some (Inr (''<ul>'' @ bslash # ''g<0></ul>''))"
  by (simp add: evals)

theorem block_loops_do_not_return:
  "convert_quote_blocks (''<blockquote>'' @ bslash # ''g<0></blockquote>'') = None \<and>
   convert_lists (''<ul>'' @ bslash # ''g<0></ul>'') = None"
proof -
  from quote_loop_fixed_point quote_loop_stuck
  have "quote_loop (''<blockquote>'' @ bslash # ''g<0></blockquote>'') = None" by blast
  moreover from ul_loop_fixed_point ul_loop_stuck
  have "ul_loop (''<ul>'' @ bslash # ''g<0></ul>'') = None" by blast
  ultimately show ?thesis
    using ol_loop_no_block by (simp add: convert_quote_blocks_def convert_lists_def)
qed

text \<open>
  C6 (for every entry of the name table, in order: the all-lowercase spelling of the
  canonical name becomes the canonical name; for each misspelling, its all-uppercase form
  becomes the canonical name in uppercase and its mixed-case or lowercase form becomes the
  canonical name; an entry without misspellings gets the first rule only). As worded the
  claim fails: the program replaces a misspelling in three exact spellings only, all
  uppercase, as the table spells it, and all lowercase (the comments say
  \<open>NOME -> NAME\<close> and \<open>nome, Nome -> Name\<close>). Any other mixed-case spelling, such as
  \<open>Nome one\<close>, is left as it is.
\<close>

theorem name_mixed_case_counterexample:
  "fix_name_spellings ''Nome one'' = Inr ''Nome one'' \<and>
   fix_name_spellings ''nOME ONE'' = Inr ''nOME ONE''"
  by (simp add: fix_name_spellings_spec names_to_fix_def lower_def upper_def lower_char_def
      upper_char_def)

text \<open>
  C6 as amended: \<open>names_spec\<close> states the rules the program has, with plain text
  replacement: per entry, in table order, every occurrence of the all-lowercase canonical
  name becomes the canonical name; then, per misspelling, every occurrence of its
  all-uppercase form becomes the canonical name in uppercase, and every occurrence of the
  misspelling exactly as the table spells it, or in all-lowercase, becomes the canonical
  name; a \<open>None\<close> entry adds no rule. \<open>fix_name_spellings\<close>, built on \<open>re.sub\<close>,
  computes exactly this on the table of the program.
\<close>

theorem name_rules:
  "fix_name_spellings t = Inr (names_spec names_to_fix t)"
  by (rule fix_name_spellings_spec)

theorem name_rules_witness:
  "fix_name_spellings ''NOME ONE, neme two, Nome Two, name three''
     = Inr ''NAME ONE, Name Two, Name Two, Name Three''"
  using name_rules [of "''NOME ONE, neme two, Nome Two, name three''"]
  by (simp add: names_to_fix_def lower_def upper_def lower_char_def upper_char_def)

lemma name_rule_without_mispellings:
  "names_spec ((c, [None]) # rest) t = names_spec rest (replace_all (lower c) c t)"
  by simp

text \<open>
  C9 (inline rewriting is idempotent on its own output whenever that output contains no
  recognized tags). As worded the claim fails: \<open>convert_simple\<close> also rewrites the
  non-breaking-space entity, which is no tag, and the removal of a tag can put an entity
  together. From \<open>&nb<p>sp;\<close> the first pass makes \<open>&nbsp;\<close>, in which none of the
  twelve tag patterns finds a match, and the second pass turns it into a space.
\<close>

theorem inline_entity_counterexample:
  "convert_simple ''&nb<p>sp;'' = Inr ''&nbsp;'' \<and> no_tags ''&nbsp;'' \<and>
   ebind (convert_simple ''&nb<p>sp;'') convert_simple = Inr '' ''"
proof -
  have 1: "convert_simple ''&nb<p>sp;'' = Inr ''&nbsp;''" by (simp add: evals)
  have 2: "no_tags ''&nbsp;''" by (simp add: no_tags_def tag_patterns_def evals)
  have 3: "convert_simple ''&nbsp;'' = Inr '' ''" by (simp add: evals)
  from 1 2 3 show ?thesis by simp
qed

text \<open>
  C9 as amended: for every text the first pass returns a text, and whenever that output
  contains no recognized tag and no non-breaking-space entity, a second pass returns the
  same output.
\<close>

theorem inline_rewrite_idempotent:
  "\<exists>y. convert_simple x = Inr y \<and>
       (no_tags y \<and> no_entity y \<longrightarrow>
          ebind (convert_simple x) convert_simple = convert_simple x)"
proof -
  from convert_simple_returns obtain y where y: "convert_simple x = Inr y" by blast
  have "ebind (convert_simple x) convert_simple = convert_simple x"
    if "no_tags y" and "no_entity y"
    using that y by (simp add: convert_simple_no_markup no_markup_split)
  with y show ?thesis by blast
qed

theorem inline_rewrite_idempotent_witness:
  "convert_simple ''<em>a</em>'' = Inr ''*a*'' \<and> no_tags ''*a*'' \<and> no_entity ''*a*'' \<and>
   ebind (convert_simple ''<em>a</em>'') convert_simple = convert_simple ''<em>a</em>''"
proof -
  have 1: "convert_simple ''<em>a</em>'' = Inr ''*a*''" by (simp add: evals)
  have 2: "no_tags ''*a*''" by (simp add: no_tags_def tag_patterns_def evals)
  have 3: "no_entity ''*a*''" by (simp add: no_entity_def evals)
  from inline_rewrite_idempotent [of "''<em>a</em>''"] 1 2 3 show ?thesis by simp
qed

end
